theory Spec2Isabelle
  imports Main "HOL-Library.Signed_Division"
begin

section \<open>Go integers, panics and slices\<close>

text \<open>
  The program \<^verbatim>\<open>gol.go\<close> computes with Go's \<^verbatim>\<open>int\<close>, which is 64 bits wide on
  the platforms Go builds for by default. It is modelled as a mathematical integer of the
  64-bit two's complement range; every addition and multiplication of the source whose
  operands are not bounded by a loop guard is wrapped into that range, as the Go
  specification prescribes for signed overflow. A loop counter that is incremented below
  its own bound (\<^verbatim>\<open>i++\<close> under \<^verbatim>\<open>i <= 1\<close>, \<^verbatim>\<open>x++\<close> under
  \<^verbatim>\<open>x < grid.width\<close>) cannot leave the range and is incremented with plain \<open>+\<close>.
  Exhaustion of memory is not modelled: an allocation of any non-negative length
  succeeds.
\<close>

definition max_int :: int where
  "max_int = 2 ^ 63 - 1"

definition min_int :: int where
  "min_int = - (2 ^ 63)"

definition int64 :: "int \<Rightarrow> bool" where
  "int64 v \<longleftrightarrow> min_int \<le> v \<and> v \<le> max_int"

definition wrap64 :: "int \<Rightarrow> int" where
  "wrap64 v = (v + 2 ^ 63) mod 2 ^ 64 - 2 ^ 63"

definition add64 :: "int \<Rightarrow> int \<Rightarrow> int" where
  "add64 u v = wrap64 (u + v)"

definition mul64 :: "int \<Rightarrow> int \<Rightarrow> int" where
  "mul64 u v = wrap64 (u * v)"

text \<open>
  A run-time panic of the program is a value: every operation that can panic returns
  \<open>Inl\<close> of the reason.
\<close>

datatype error =
    DivideByZero
  | IndexOutOfRange
  | LenOutOfRange
  | InvalidPointer
  | InvalidIntnArgument

text \<open>
  Go's \<^verbatim>\<open>%\<close> truncates towards zero: the remainder has the sign of the dividend.
  That is \<open>smod\<close>; a zero divisor panics.
\<close>

definition rem64 :: "int \<Rightarrow> int \<Rightarrow> error + int" where
  "rem64 u v = (if v = 0 then Inl DivideByZero else Inr (u smod v))"

text \<open>Indexing a slice checks the bounds; \<^verbatim>\<open>make\<close> refuses a negative length.\<close>

definition index :: "'a list \<Rightarrow> int \<Rightarrow> error + 'a" where
  "index xs i = (if 0 \<le> i \<and> i < int (length xs) then Inr (xs ! nat i) else Inl IndexOutOfRange)"

definition make_slice :: "int \<Rightarrow> 'a \<Rightarrow> error + 'a list" where
  "make_slice n z = (if n < 0 then Inl LenOutOfRange else Inr (replicate (nat n) z))"

section \<open>Field\<close>

record Field =
  s :: "bool list list"
  width :: int
  h :: int

text \<open>
  Fields are reached through pointers (\<^verbatim>\<open>*Field\<close>), and \<^verbatim>\<open>Life\<close> holds two of
  them whose roles are exchanged by \<^verbatim>\<open>Step\<close>. The store is the list of all fields
  allocated so far; an address is a position in it, and allocation appends.
\<close>

type_synonym addr = nat

type_synonym heap = "Field list"

definition deref :: "heap \<Rightarrow> addr \<Rightarrow> error + Field" where
  "deref hp p = (if p < length hp then Inr (hp ! p) else Inl InvalidPointer)"

text \<open>
  \<^verbatim>\<open>NewField\<close>: the outer slice is made first, then the loop
  \<^verbatim>\<open>for i := range s\<close> makes one row per index.
\<close>

function NewField_rows :: "bool list list \<Rightarrow> nat \<Rightarrow> int \<Rightarrow> error + bool list list" where
  "NewField_rows rows i wd =
     (if i < length rows then
        (case make_slice wd False of
           Inl e \<Rightarrow> Inl e
         | Inr r \<Rightarrow> NewField_rows (rows[i := r]) (Suc i) wd)
      else Inr rows)"
  by pat_completeness auto
termination
  by (relation "measure (\<lambda>(rows, i, wd). length rows - i)") auto

definition NewField :: "int \<Rightarrow> int \<Rightarrow> heap \<Rightarrow> error + addr \<times> heap" where
  "NewField wd ht hp =
     (case make_slice ht [] of
        Inl e \<Rightarrow> Inl e
      | Inr rows0 \<Rightarrow>
          (case NewField_rows rows0 0 wd of
             Inl e \<Rightarrow> Inl e
           | Inr rows \<Rightarrow> Inr (length hp, hp @ [\<lparr>s = rows, width = wd, h = ht\<rparr>])))"

text \<open>\<^verbatim>\<open>f.s[y][x] = b\<close>: the row is indexed first, then the column; nothing wraps.\<close>

definition Set :: "Field \<Rightarrow> int \<Rightarrow> int \<Rightarrow> bool \<Rightarrow> error + Field" where
  "Set f x y v =
     (case index (s f) y of
        Inl e \<Rightarrow> Inl e
      | Inr row \<Rightarrow>
          if 0 \<le> x \<and> x < int (length row)
          then Inr (f\<lparr>s := (s f)[nat y := row[nat x := v]]\<rparr>)
          else Inl IndexOutOfRange)"

text \<open>
  \<^verbatim>\<open>Alive\<close>: the dimension is added once, then the remainder is taken; the result
  indexes the row slice and then the row.
\<close>

definition Alive :: "Field \<Rightarrow> int \<Rightarrow> int \<Rightarrow> error + bool" where
  "Alive f x y =
     (case rem64 (add64 x (Field.width f)) (Field.width f) of
        Inl e \<Rightarrow> Inl e
      | Inr x' \<Rightarrow>
          (case rem64 (add64 y (Field.h f)) (Field.h f) of
             Inl e \<Rightarrow> Inl e
           | Inr y' \<Rightarrow>
               (case index (s f) y' of
                  Inl e \<Rightarrow> Inl e
                | Inr row \<Rightarrow> index row x')))"

text \<open>
  \<^verbatim>\<open>Next\<close>: the inner loop over \<open>j\<close>, the outer loop over \<open>i\<close>, both from \<open>-1\<close>
  while \<open>\<le> 1\<close>. The conjunction short-circuits: \<^verbatim>\<open>Alive\<close> is not called at the
  offset \<open>(0, 0)\<close>, and the final \<^verbatim>\<open>Alive(x, y)\<close> is called only when the count is
  \<open>2\<close>.
\<close>

function Next_j :: "Field \<Rightarrow> int \<Rightarrow> int \<Rightarrow> int \<Rightarrow> int \<Rightarrow> int \<Rightarrow> error + int" where
  "Next_j f x y i j alive =
     (if j \<le> 1 then
        (if j \<noteq> 0 \<or> i \<noteq> 0 then
           (case Alive f (add64 x i) (add64 y j) of
              Inl e \<Rightarrow> Inl e
            | Inr v \<Rightarrow> Next_j f x y i (j + 1) (if v then alive + 1 else alive))
         else Next_j f x y i (j + 1) alive)
      else Inr alive)"
  by pat_completeness auto
termination
  by (relation "measure (\<lambda>(f, x, y, i, j, alive). nat (2 - j))") auto

function Next_i :: "Field \<Rightarrow> int \<Rightarrow> int \<Rightarrow> int \<Rightarrow> int \<Rightarrow> error + int" where
  "Next_i f x y i alive =
     (if i \<le> 1 then
        (case Next_j f x y i (- 1) alive of
           Inl e \<Rightarrow> Inl e
         | Inr alive' \<Rightarrow> Next_i f x y (i + 1) alive')
      else Inr alive)"
  by pat_completeness auto
termination
  by (relation "measure (\<lambda>(f, x, y, i, alive). nat (2 - i))") auto

definition Next :: "Field \<Rightarrow> int \<Rightarrow> int \<Rightarrow> error + bool" where
  "Next f x y =
     (case Next_i f x y (- 1) 0 of
        Inl e \<Rightarrow> Inl e
      | Inr alive \<Rightarrow>
          if alive = 3 then Inr True
          else if alive = 2 then Alive f x y
          else Inr False)"

section \<open>Life\<close>

record Life =
  a :: addr
  b :: addr
  width :: int
  h :: int

text \<open>
  \<^verbatim>\<open>math/rand\<close> is outside the program. Its global source is a parameter: the sequence
  of raw values that the coming calls will draw. \<^verbatim>\<open>rand.Intn(n)\<close> panics for
  \<open>n \<le> 0\<close> and otherwise returns a number of \<open>[0, n)\<close>; every such number is
  \<open>r 0 mod n\<close> for some raw value \<open>r 0\<close>.
\<close>

type_synonym rand = "nat \<Rightarrow> int"

definition Intn :: "int \<Rightarrow> rand \<Rightarrow> error + int \<times> rand" where
  "Intn n r = (if n \<le> 0 then Inl InvalidIntnArgument else Inr (r 0 mod n, \<lambda>k. r (Suc k)))"

text \<open>
  \<^verbatim>\<open>NewLife\<close>: the loop \<^verbatim>\<open>for i := 0; i < (width * h / 4); i++\<close> draws \<open>x\<close>, then
  \<open>y\<close>, and sets the cell of field \<open>a\<close>; field \<open>b\<close> is allocated after the loop.
\<close>

function NewLife_loop ::
    "int \<Rightarrow> int \<Rightarrow> addr \<Rightarrow> int \<Rightarrow> heap \<Rightarrow> rand \<Rightarrow> error + heap \<times> rand" where
  "NewLife_loop wd ht pa i hp r =
     (if i < mul64 wd ht sdiv 4 then
        (case Intn wd r of
           Inl e \<Rightarrow> Inl e
         | Inr (x, r1) \<Rightarrow>
             (case Intn ht r1 of
                Inl e \<Rightarrow> Inl e
              | Inr (y, r2) \<Rightarrow>
                  (case deref hp pa of
                     Inl e \<Rightarrow> Inl e
                   | Inr fa \<Rightarrow>
                       (case Set fa x y True of
                          Inl e \<Rightarrow> Inl e
                        | Inr fa' \<Rightarrow> NewLife_loop wd ht pa (i + 1) (hp[pa := fa']) r2))))
      else Inr (hp, r))"
  by pat_completeness auto
termination
  by (relation "measure (\<lambda>(wd, ht, pa, i, hp, r). nat (mul64 wd ht sdiv 4 - i))") auto

definition NewLife :: "int \<Rightarrow> int \<Rightarrow> heap \<Rightarrow> rand \<Rightarrow> error + Life \<times> heap \<times> rand" where
  "NewLife wd ht hp r =
     (case NewField wd ht hp of
        Inl e \<Rightarrow> Inl e
      | Inr (pa, hp1) \<Rightarrow>
          (case NewLife_loop wd ht pa 0 hp1 r of
             Inl e \<Rightarrow> Inl e
           | Inr (hp2, r') \<Rightarrow>
               (case NewField wd ht hp2 of
                  Inl e \<Rightarrow> Inl e
                | Inr (pb, hp3) \<Rightarrow> Inr (\<lparr>a = pa, b = pb, width = wd, h = ht\<rparr>, hp3, r'))))"

text \<open>
  \<^verbatim>\<open>Step\<close>: the loop over \<open>x\<close> inside the loop over \<open>y\<close>; each iteration reads field
  \<open>a\<close> through \<^verbatim>\<open>Next\<close> and writes field \<open>b\<close> through \<^verbatim>\<open>Set\<close>. The final
  assignment exchanges the two pointers.
\<close>

function Step_x :: "Life \<Rightarrow> heap \<Rightarrow> int \<Rightarrow> int \<Rightarrow> error + heap" where
  "Step_x grid hp y x =
     (if x < Life.width grid then
        (case deref hp (a grid) of
           Inl e \<Rightarrow> Inl e
         | Inr fa \<Rightarrow>
             (case Next fa x y of
                Inl e \<Rightarrow> Inl e
              | Inr v \<Rightarrow>
                  (case deref hp (b grid) of
                     Inl e \<Rightarrow> Inl e
                   | Inr fb \<Rightarrow>
                       (case Set fb x y v of
                          Inl e \<Rightarrow> Inl e
                        | Inr fb' \<Rightarrow> Step_x grid (hp[b grid := fb']) y (x + 1)))))
      else Inr hp)"
  by pat_completeness auto
termination
  by (relation "measure (\<lambda>(grid, hp, y, x). nat (Life.width grid - x))") auto

function Step_y :: "Life \<Rightarrow> heap \<Rightarrow> int \<Rightarrow> error + heap" where
  "Step_y grid hp y =
     (if y < Life.h grid then
        (case Step_x grid hp y 0 of
           Inl e \<Rightarrow> Inl e
         | Inr hp' \<Rightarrow> Step_y grid hp' (y + 1))
      else Inr hp)"
  by pat_completeness auto
termination
  by (relation "measure (\<lambda>(grid, hp, y). nat (Life.h grid - y))") auto

definition Step :: "Life \<Rightarrow> heap \<Rightarrow> error + Life \<times> heap" where
  "Step grid hp =
     (case Step_y grid hp 0 of
        Inl e \<Rightarrow> Inl e
      | Inr hp' \<Rightarrow> Inr (grid\<lparr>a := b grid, b := a grid\<rparr>, hp'))"

text \<open>Repeated calls of \<^verbatim>\<open>Step\<close>, as the driver's loop makes them.\<close>

fun Steps :: "nat \<Rightarrow> Life \<Rightarrow> heap \<Rightarrow> error + Life \<times> heap" where
  "Steps 0 grid hp = Inr (grid, hp)"
| "Steps (Suc n) grid hp =
     (case Step grid hp of
        Inl e \<Rightarrow> Inl e
      | Inr (grid', hp') \<Rightarrow> Steps n grid' hp')"

text \<open>
  \<^verbatim>\<open>String\<close>: the buffer grows by one byte per cell and by a newline per row; it only
  reads the store.
\<close>

function String_x :: "Life \<Rightarrow> heap \<Rightarrow> int \<Rightarrow> int \<Rightarrow> string \<Rightarrow> error + string" where
  "String_x grid hp y x buf =
     (if x < Life.width grid then
        (case deref hp (a grid) of
           Inl e \<Rightarrow> Inl e
         | Inr fa \<Rightarrow>
             (case Alive fa x y of
                Inl e \<Rightarrow> Inl e
              | Inr v \<Rightarrow>
                  String_x grid hp y (x + 1) (buf @ [if v then CHR ''*'' else CHR '' ''])))
      else Inr buf)"
  by pat_completeness auto
termination
  by (relation "measure (\<lambda>(grid, hp, y, x, buf). nat (Life.width grid - x))") auto

function String_y :: "Life \<Rightarrow> heap \<Rightarrow> int \<Rightarrow> string \<Rightarrow> error + string" where
  "String_y grid hp y buf =
     (if y < Life.h grid then
        (case String_x grid hp y 0 buf of
           Inl e \<Rightarrow> Inl e
         | Inr buf' \<Rightarrow> String_y grid hp (y + 1) (buf' @ [CHR 0x0A]))
      else Inr buf)"
  by pat_completeness auto
termination
  by (relation "measure (\<lambda>(grid, hp, y, buf). nat (Life.h grid - y))") auto

definition String :: "Life \<Rightarrow> heap \<Rightarrow> error + string" where
  "String grid hp = String_y grid hp 0 []"

declare NewField_rows.simps [simp del]
declare Next_j.simps [simp del]
declare Next_i.simps [simp del]
declare NewLife_loop.simps [simp del]
declare Step_x.simps [simp del]
declare Step_y.simps [simp del]
declare String_x.simps [simp del]
declare String_y.simps [simp del]

section \<open>Vocabulary of the properties\<close>

text \<open>
  The stored state of the cell in column \<open>x\<close> of row \<open>y\<close>; it is used for coordinates
  inside the field only.
\<close>

definition cell :: "Field \<Rightarrow> int \<Rightarrow> int \<Rightarrow> bool" where
  "cell f x y = s f ! nat y ! nat x"

text \<open>
  A field as \<^verbatim>\<open>NewField\<close> builds it for positive dimensions: \<open>h\<close> rows of \<open>width\<close>
  cells each. Twice a dimension fits an \<^verbatim>\<open>int\<close>: a slice of \<open>2 ^ 62\<close> elements
  cannot be allocated, so no field in memory is that large.
\<close>

definition field_ok :: "Field \<Rightarrow> bool" where
  "field_ok f \<longleftrightarrow>
     0 < Field.width f \<and> 0 < Field.h f \<and>
     2 * Field.width f \<le> max_int \<and> 2 * Field.h f \<le> max_int \<and>
     length (s f) = nat (Field.h f) \<and>
     list_all (\<lambda>row. length row = nat (Field.width f)) (s f)"

text \<open>
  A game state as \<^verbatim>\<open>NewLife\<close> builds it: two distinct allocated fields, both of the
  dimensions recorded in the \<^verbatim>\<open>Life\<close> value.
\<close>

definition life_ok :: "Life \<Rightarrow> heap \<Rightarrow> bool" where
  "life_ok grid hp \<longleftrightarrow>
     a grid < length hp \<and> b grid < length hp \<and> a grid \<noteq> b grid \<and>
     field_ok (hp ! a grid) \<and> field_ok (hp ! b grid) \<and>
     Field.width (hp ! a grid) = Life.width grid \<and> Field.h (hp ! a grid) = Life.h grid \<and>
     Field.width (hp ! b grid) = Life.width grid \<and> Field.h (hp ! b grid) = Life.h grid"

text \<open>The rows of a field whose cell \<open>(x, y)\<close> holds \<open>P x y\<close>.\<close>

definition tabulate :: "int \<Rightarrow> int \<Rightarrow> (int \<Rightarrow> int \<Rightarrow> bool) \<Rightarrow> bool list list" where
  "tabulate wd ht P = map (\<lambda>y. map (\<lambda>x. P (int x) (int y)) [0..<nat wd]) [0..<nat ht]"

text \<open>
  The specification's neighbour count: the eight offsets \<open>(i, j)\<close> with
  \<open>i, j \<in> {-1, 0, 1}\<close> other than \<open>(0, 0)\<close>, each wrapped toroidally into the field,
  counted when the cell there is alive.
\<close>

definition offsets :: "(int \<times> int) list" where
  "offsets = [(- 1, - 1), (- 1, 0), (- 1, 1), (0, - 1), (0, 1), (1, - 1), (1, 0), (1, 1)]"

definition live_neighbours :: "Field \<Rightarrow> int \<Rightarrow> int \<Rightarrow> nat" where
  "live_neighbours f x y =
     length (filter (\<lambda>(i, j). cell f ((x + i) mod Field.width f) ((y + j) mod Field.h f)) offsets)"

text \<open>The contribution of the offset \<open>(i, j)\<close> to that count.\<close>

definition nb :: "Field \<Rightarrow> int \<Rightarrow> int \<Rightarrow> int \<Rightarrow> int \<Rightarrow> int" where
  "nb f x y i j = (if cell f ((x + i) mod Field.width f) ((y + j) mod Field.h f) then 1 else 0)"

text \<open>
  A field of three rows and three columns with live cells at \<open>(0, 0)\<close>, \<open>(1, 0)\<close> and
  \<open>(1, 2)\<close>, on which the statements below are evaluated.
\<close>

definition small_field :: Field where
  "small_field =
     \<lparr>s = [[True, True, False], [False, False, False], [False, True, False]], width = 3, h = 3\<rparr>"

text \<open>The rule of the game applied to the specification's count.\<close>

definition next_cell :: "Field \<Rightarrow> int \<Rightarrow> int \<Rightarrow> bool" where
  "next_cell f x y \<longleftrightarrow> live_neighbours f x y = 3 \<or> live_neighbours f x y = 2 \<and> cell f x y"

text \<open>
  The patterns of the scenarios: a block of two by two cells whose corner of least
  coordinates is \<open>(x0, y0)\<close>, and the two phases of the blinker centred at \<open>(2, 2)\<close>.
\<close>

definition block :: "int \<Rightarrow> int \<Rightarrow> int \<Rightarrow> int \<Rightarrow> bool" where
  "block x0 y0 x y \<longleftrightarrow> (x = x0 \<or> x = x0 + 1) \<and> (y = y0 \<or> y = y0 + 1)"

definition blinker_h :: "int \<Rightarrow> int \<Rightarrow> bool" where
  "blinker_h x y \<longleftrightarrow> y = 2 \<and> 1 \<le> x \<and> x \<le> 3"

definition blinker_v :: "int \<Rightarrow> int \<Rightarrow> bool" where
  "blinker_v x y \<longleftrightarrow> x = 2 \<and> 1 \<le> y \<and> y \<le> 3"

text \<open>Game states on which the scenarios are evaluated.\<close>

definition dead :: "int \<Rightarrow> int \<Rightarrow> bool" where
  "dead x y \<longleftrightarrow> False"

definition block_life :: Life where
  "block_life = \<lparr>a = 0, b = 1, width = 4, h = 4\<rparr>"

definition block_heap :: heap where
  "block_heap =
     [\<lparr>s = tabulate 4 4 (block 1 1), width = 4, h = 4\<rparr>,
      \<lparr>s = tabulate 4 4 dead, width = 4, h = 4\<rparr>]"

definition blinker_life :: Life where
  "blinker_life = \<lparr>a = 0, b = 1, width = 5, h = 5\<rparr>"

definition blinker_heap :: heap where
  "blinker_heap =
     [\<lparr>s = tabulate 5 5 blinker_h, width = 5, h = 5\<rparr>,
      \<lparr>s = tabulate 5 5 dead, width = 5, h = 5\<rparr>]"

text \<open>
  The specification's rendering: one glyph per cell, \<open>*\<close> for a live cell and a space
  for a dead one, one line per row, a newline after each line.
\<close>

definition glyph :: "bool \<Rightarrow> char" where
  "glyph v = (if v then CHR ''*'' else CHR '' '')"

definition render_lines :: "Field \<Rightarrow> string list" where
  "render_lines f = map (map glyph) (s f)"

definition render :: "Field \<Rightarrow> string" where
  "render f = concat (map (\<lambda>l. l @ [CHR 0x0A]) (render_lines f))"

text \<open>The number of live cells of a field.\<close>

definition live_count :: "Field \<Rightarrow> nat" where
  "live_count f = sum_list (map (\<lambda>row. length (filter (\<lambda>v. v) row)) (s f))"

text \<open>
  The operations a caller can perform on a game, for the invariant below: \<^verbatim>\<open>Step\<close>,
  \<^verbatim>\<open>String\<close>, and \<^verbatim>\<open>Set\<close>, \<^verbatim>\<open>Alive\<close> and \<^verbatim>\<open>Next\<close> on the current field
  (\<open>True\<close>) or on the scratch field (\<open>False\<close>). A panic of an operation ends the run.
\<close>

datatype op =
    DoStep
  | DoString
  | DoSet bool int int bool
  | DoAlive bool int int
  | DoNext bool int int

definition field_of :: "Life \<Rightarrow> bool \<Rightarrow> addr" where
  "field_of grid cur = (if cur then a grid else b grid)"

fun apply_op :: "op \<Rightarrow> Life \<Rightarrow> heap \<Rightarrow> error + Life \<times> heap" where
  "apply_op DoStep grid hp = Step grid hp"
| "apply_op DoString grid hp =
     (case String grid hp of Inl e \<Rightarrow> Inl e | Inr text \<Rightarrow> Inr (grid, hp))"
| "apply_op (DoSet cur x y v) grid hp =
     (case deref hp (field_of grid cur) of
        Inl e \<Rightarrow> Inl e
      | Inr f \<Rightarrow>
          (case Set f x y v of
             Inl e \<Rightarrow> Inl e
           | Inr f' \<Rightarrow> Inr (grid, hp[field_of grid cur := f'])))"
| "apply_op (DoAlive cur x y) grid hp =
     (case deref hp (field_of grid cur) of
        Inl e \<Rightarrow> Inl e
      | Inr f \<Rightarrow> (case Alive f x y of Inl e \<Rightarrow> Inl e | Inr v \<Rightarrow> Inr (grid, hp)))"
| "apply_op (DoNext cur x y) grid hp =
     (case deref hp (field_of grid cur) of
        Inl e \<Rightarrow> Inl e
      | Inr f \<Rightarrow> (case Next f x y of Inl e \<Rightarrow> Inl e | Inr v \<Rightarrow> Inr (grid, hp)))"

fun run :: "op list \<Rightarrow> Life \<Rightarrow> heap \<Rightarrow> error + Life \<times> heap" where
  "run [] grid hp = Inr (grid, hp)"
| "run (c # cs) grid hp =
     (case apply_op c grid hp of
        Inl e \<Rightarrow> Inl e
      | Inr (grid', hp') \<Rightarrow> run cs grid' hp')"

fun op_in_range :: "int \<Rightarrow> int \<Rightarrow> op \<Rightarrow> bool" where
  "op_in_range wd ht DoStep = True"
| "op_in_range wd ht DoString = True"
| "op_in_range wd ht (DoSet cur x y v) = (0 \<le> x \<and> x < wd \<and> 0 \<le> y \<and> y < ht)"
| "op_in_range wd ht (DoAlive cur x y) = (0 \<le> x \<and> x < wd \<and> 0 \<le> y \<and> y < ht)"
| "op_in_range wd ht (DoNext cur x y) = (0 \<le> x \<and> x < wd \<and> 0 \<le> y \<and> y < ht)"

text \<open>A random source for the evaluations: the raw values \<open>0, 1, 2, ...\<close>.\<close>

definition counting :: rand where
  "counting k = int k"

section \<open>Integer operations and slices\<close>

lemma wrap64_id: "int64 v \<Longrightarrow> wrap64 v = v"
  by (simp add: wrap64_def int64_def min_int_def max_int_def)

lemma add64_id: "int64 (u + v) \<Longrightarrow> add64 u v = u + v"
  by (simp add: add64_def wrap64_id)

lemma smod_nonneg: "0 \<le> u \<Longrightarrow> 0 < v \<Longrightarrow> (u::int) smod v = u mod v"
  by (cases "u = 0") (simp_all add: signed_modulo_int_def)

lemma smod_neg: "u < 0 \<Longrightarrow> 0 < v \<Longrightarrow> (u::int) smod v = - ((- u) mod v)"
  by (simp add: signed_modulo_int_def)

lemma smod_neg_lt0: "u < 0 \<Longrightarrow> 0 < v \<Longrightarrow> \<not> v dvd u \<Longrightarrow> (u::int) smod v < 0"
proof -
  assume u: "u < 0" and v: "0 < v" and nd: "\<not> v dvd u"
  from nd have "\<not> v dvd (- u)" by simp
  then have "(- u) mod v \<noteq> 0" by (simp add: mod_eq_0_iff_dvd)
  moreover from v have "0 \<le> (- u) mod v" by simp
  ultimately have "0 < (- u) mod v" by linarith
  with u v show ?thesis by (simp add: smod_neg)
qed

lemma smod_dvd: "0 < v \<Longrightarrow> v dvd u \<Longrightarrow> (u::int) smod v = 0"
  by (simp add: signed_modulo_int_def)

lemma smod_wrapped: "0 < v \<Longrightarrow> 0 \<le> u \<or> v dvd u \<Longrightarrow> (u::int) smod v = u mod v"
  by (cases "0 \<le> u") (auto simp: smod_nonneg smod_dvd)

lemma index_ok: "0 \<le> i \<Longrightarrow> i < int (length xs) \<Longrightarrow> index xs i = Inr (xs ! nat i)"
  by (simp add: index_def)

lemma index_neg: "i < 0 \<Longrightarrow> index xs i = Inl IndexOutOfRange"
  by (simp add: index_def)

lemma index_Inl: "index xs i = Inl e \<Longrightarrow> e = IndexOutOfRange"
  by (simp add: index_def split: if_splits)

lemma field_ok_row:
  "field_ok f \<Longrightarrow> 0 \<le> y \<Longrightarrow> y < Field.h f \<Longrightarrow> length (s f ! nat y) = nat (Field.width f)"
  by (simp add: field_ok_def list_all_length)

lemma Alive_wrapped:
  assumes ok: "field_ok f"
    and sx: "0 \<le> add64 x (Field.width f) \<or> Field.width f dvd add64 x (Field.width f)"
    and sy: "0 \<le> add64 y (Field.h f) \<or> Field.h f dvd add64 y (Field.h f)"
  shows "Alive f x y =
    Inr (cell f (add64 x (Field.width f) mod Field.width f) (add64 y (Field.h f) mod Field.h f))"
proof -
  from ok have W: "0 < Field.width f" and H: "0 < Field.h f"
    and len: "length (s f) = nat (Field.h f)"
    by (simp_all add: field_ok_def)
  let ?x = "add64 x (Field.width f) mod Field.width f"
  let ?y = "add64 y (Field.h f) mod Field.h f"
  have rx: "rem64 (add64 x (Field.width f)) (Field.width f) = Inr ?x"
    using W sx by (simp add: rem64_def smod_wrapped)
  have ry: "rem64 (add64 y (Field.h f)) (Field.h f) = Inr ?y"
    using H sy by (simp add: rem64_def smod_wrapped)
  have x: "0 \<le> ?x" "?x < Field.width f" using W by simp_all
  have y: "0 \<le> ?y" "?y < Field.h f" using H by simp_all
  have row: "index (s f) ?y = Inr (s f ! nat ?y)"
    using y len by (simp add: index_ok)
  have col: "index (s f ! nat ?y) ?x = Inr (s f ! nat ?y ! nat ?x)"
    using x field_ok_row [OF ok y] by (simp add: index_ok)
  show ?thesis
    by (simp add: Alive_def rx ry row col cell_def)
qed

lemma Alive_fails_x:
  assumes ok: "field_ok f"
    and sx: "add64 x (Field.width f) < 0" "\<not> Field.width f dvd add64 x (Field.width f)"
  shows "Alive f x y = Inl IndexOutOfRange"
proof -
  from ok have W: "0 < Field.width f" and H: "0 < Field.h f"
    and len: "length (s f) = nat (Field.h f)"
    by (simp_all add: field_ok_def)
  let ?x = "add64 x (Field.width f) smod Field.width f"
  let ?y = "add64 y (Field.h f) smod Field.h f"
  have rx: "rem64 (add64 x (Field.width f)) (Field.width f) = Inr ?x"
    using W by (simp add: rem64_def)
  have ry: "rem64 (add64 y (Field.h f)) (Field.h f) = Inr ?y"
    using H by (simp add: rem64_def)
  have neg: "?x < 0" using sx W by (simp add: smod_neg_lt0)
  show ?thesis
  proof (cases "index (s f) ?y")
    case (Inl e)
    then have "e = IndexOutOfRange" by (rule index_Inl)
    with Inl show ?thesis by (simp add: Alive_def rx ry)
  next
    case (Inr row)
    then show ?thesis by (simp add: Alive_def rx ry index_neg [OF neg])
  qed
qed

lemma Alive_fails_y:
  assumes ok: "field_ok f"
    and sy: "add64 y (Field.h f) < 0" "\<not> Field.h f dvd add64 y (Field.h f)"
  shows "Alive f x y = Inl IndexOutOfRange"
proof -
  from ok have W: "0 < Field.width f" and H: "0 < Field.h f"
    by (simp_all add: field_ok_def)
  let ?y = "add64 y (Field.h f) smod Field.h f"
  have neg: "?y < 0" using sy H by (simp add: smod_neg_lt0)
  show ?thesis
    using W H by (simp add: Alive_def rem64_def index_neg [OF neg])
qed


lemma Alive_near:
  assumes ok: "field_ok f"
    and x: "- Field.width f \<le> x" "x \<le> Field.width f"
    and y: "- Field.h f \<le> y" "y \<le> Field.h f"
  shows "Alive f x y = Inr (cell f (x mod Field.width f) (y mod Field.h f))"
proof -
  from ok have W: "2 * Field.width f \<le> max_int" and H: "2 * Field.h f \<le> max_int"
    by (simp_all add: field_ok_def)
  have "int64 (x + Field.width f)"
    using x W by (simp add: int64_def min_int_def)
  then have sx: "add64 x (Field.width f) = x + Field.width f" by (rule add64_id)
  have "int64 (y + Field.h f)"
    using y H by (simp add: int64_def min_int_def)
  then have sy: "add64 y (Field.h f) = y + Field.h f" by (rule add64_id)
  show ?thesis
    using Alive_wrapped [OF ok, of x y] x y by (simp add: sx sy)
qed

lemma Alive_in:
  assumes ok: "field_ok f"
    and x: "0 \<le> x" "x < Field.width f" and y: "0 \<le> y" "y < Field.h f"
  shows "Alive f x y = Inr (cell f x y)"
  using Alive_near [OF ok, of x y] x y by simp

lemma add64_offset:
  assumes "0 \<le> x" "2 * x \<le> max_int" "- 1 \<le> i" "i \<le> 1"
  shows "add64 x i = x + i"
  using assms by (intro add64_id) (simp add: int64_def min_int_def max_int_def)

lemma Alive_offset:
  assumes ok: "field_ok f"
    and x: "0 \<le> x" "x < Field.width f" and y: "0 \<le> y" "y < Field.h f"
    and i: "- 1 \<le> i" "i \<le> 1" and j: "- 1 \<le> j" "j \<le> 1"
  shows "Alive f (add64 x i) (add64 y j) =
    Inr (cell f ((x + i) mod Field.width f) ((y + j) mod Field.h f))"
proof -
  from ok have W: "2 * Field.width f \<le> max_int" and H: "2 * Field.h f \<le> max_int"
    by (simp_all add: field_ok_def)
  have ax: "add64 x i = x + i" using x W i by (intro add64_offset) simp_all
  have ay: "add64 y j = y + j" using y H j by (intro add64_offset) simp_all
  show ?thesis
    unfolding ax ay using x y i j by (intro Alive_near [OF ok]) simp_all
qed

lemma Next_j_side:
  assumes ok: "field_ok f"
    and x: "0 \<le> x" "x < Field.width f" and y: "0 \<le> y" "y < Field.h f"
    and i: "- 1 \<le> i" "i \<le> 1" "i \<noteq> 0"
  shows "Next_j f x y i (- 1) n = Inr (n + nb f x y i (- 1) + nb f x y i 0 + nb f x y i 1)"
proof -
  have 2: "Next_j f x y i 2 m = Inr m" for m
    by (subst Next_j.simps) simp
  have 1: "Next_j f x y i 1 m = Inr (m + nb f x y i 1)" for m
    by (subst Next_j.simps) (simp add: Alive_offset [OF ok x y i(1,2)] 2 nb_def)
  have 0: "Next_j f x y i 0 m = Inr (m + nb f x y i 0 + nb f x y i 1)" for m
    using i(3) by (subst Next_j.simps) (simp add: Alive_offset [OF ok x y i(1,2)] 1 nb_def)
  show ?thesis
    by (subst Next_j.simps) (simp add: Alive_offset [OF ok x y i(1,2)] 0 nb_def)
qed

lemma Next_j_mid:
  assumes ok: "field_ok f"
    and x: "0 \<le> x" "x < Field.width f" and y: "0 \<le> y" "y < Field.h f"
  shows "Next_j f x y 0 (- 1) n = Inr (n + nb f x y 0 (- 1) + nb f x y 0 1)"
proof -
  have 2: "Next_j f x y 0 2 m = Inr m" for m
    by (subst Next_j.simps) simp
  have 1: "Next_j f x y 0 1 m = Inr (m + nb f x y 0 1)" for m
    by (subst Next_j.simps) (simp add: Alive_offset [OF ok x y] 2 nb_def)
  have 0: "Next_j f x y 0 0 m = Inr (m + nb f x y 0 1)" for m
    by (subst Next_j.simps) (simp add: 1)
  show ?thesis
    by (subst Next_j.simps) (simp add: Alive_offset [OF ok x y] 0 nb_def)
qed

lemma Next_i_count:
  assumes ok: "field_ok f"
    and x: "0 \<le> x" "x < Field.width f" and y: "0 \<le> y" "y < Field.h f"
  shows "Next_i f x y (- 1) 0 =
    Inr (nb f x y (- 1) (- 1) + nb f x y (- 1) 0 + nb f x y (- 1) 1 +
         nb f x y 0 (- 1) + nb f x y 0 1 +
         nb f x y 1 (- 1) + nb f x y 1 0 + nb f x y 1 1)"
proof -
  have 2: "Next_i f x y 2 m = Inr m" for m
    by (subst Next_i.simps) simp
  have 1: "Next_i f x y 1 m = Inr (m + nb f x y 1 (- 1) + nb f x y 1 0 + nb f x y 1 1)" for m
    by (subst Next_i.simps) (simp add: Next_j_side [OF ok x y] 2)
  have 0: "Next_i f x y 0 m =
      Inr (m + nb f x y 0 (- 1) + nb f x y 0 1 + nb f x y 1 (- 1) + nb f x y 1 0 + nb f x y 1 1)" for m
    by (subst Next_i.simps) (simp add: Next_j_mid [OF ok x y] 1)
  show ?thesis
    by (subst Next_i.simps) (simp add: Next_j_side [OF ok x y] 0)
qed

lemma live_neighbours_sum:
  "int (live_neighbours f x y) =
     nb f x y (- 1) (- 1) + nb f x y (- 1) 0 + nb f x y (- 1) 1 +
     nb f x y 0 (- 1) + nb f x y 0 1 +
     nb f x y 1 (- 1) + nb f x y 1 0 + nb f x y 1 1"
  by (simp add: live_neighbours_def offsets_def nb_def)

lemma Next_rule:
  assumes ok: "field_ok f"
    and x: "0 \<le> x" "x < Field.width f" and y: "0 \<le> y" "y < Field.h f"
  shows "Next f x y = Inr (live_neighbours f x y = 3 \<or> live_neighbours f x y = 2 \<and> cell f x y)"
proof -
  have cnt: "Next_i f x y (- 1) 0 = Inr (int (live_neighbours f x y))"
    by (simp only: Next_i_count [OF ok x y] live_neighbours_sum)
  have 3: "int (live_neighbours f x y) = 3 \<longleftrightarrow> live_neighbours f x y = 3" by linarith
  have 2: "int (live_neighbours f x y) = 2 \<longleftrightarrow> live_neighbours f x y = 2" by linarith
  show ?thesis
    by (simp add: Next_def cnt Alive_in [OF ok x y] 2 3 del: of_nat_eq_iff)
qed

lemma small_field_ok: "field_ok small_field"
  by (simp add: field_ok_def small_field_def max_int_def)

lemma live_neighbours_le: "live_neighbours f x y \<le> 8"
proof -
  have "live_neighbours f x y \<le> length offsets"
    unfolding live_neighbours_def by (rule length_filter_le)
  then show ?thesis by (simp add: offsets_def)
qed

section \<open>The transition rule\<close>

text \<open>
  Claim C1. On a well-formed field and for a cell \<open>(x, y)\<close> inside it, \<^verbatim>\<open>Next\<close>
  returns without a panic, and its result is true exactly when the number of live cells
  among the eight toroidally wrapped neighbours is \<open>3\<close>, or is \<open>2\<close> while the cell
  itself is alive. The count is at most \<open>8\<close>, and for the counts \<open>0\<close>, \<open>1\<close> and
  \<open>4\<close> to \<open>8\<close> the result is false whatever the cell's own state.
\<close>

theorem Next_transition_rule:
  assumes "field_ok f" and "0 \<le> x" and "x < Field.width f" and "0 \<le> y" and "y < Field.h f"
  shows "Next f x y = Inr (live_neighbours f x y = 3 \<or> live_neighbours f x y = 2 \<and> cell f x y)
    \<and> live_neighbours f x y \<le> 8
    \<and> (live_neighbours f x y \<in> {0, 1, 4, 5, 6, 7, 8} \<longrightarrow> Next f x y = Inr False)"
proof -
  have rule: "Next f x y = Inr (live_neighbours f x y = 3 \<or> live_neighbours f x y = 2 \<and> cell f x y)"
    using assms by (rule Next_rule)
  moreover have "live_neighbours f x y \<le> 8" by (rule live_neighbours_le)
  moreover have "live_neighbours f x y \<in> {0, 1, 4, 5, 6, 7, 8} \<longrightarrow> Next f x y = Inr False"
    unfolding rule by auto
  ultimately show ?thesis by blast
qed

text \<open>
  The rule at the centre of \<open>small_field\<close>, which has three live neighbours.
\<close>

theorem Next_transition_rule_witness:
  "field_ok small_field \<and> (0::int) \<le> 1 \<and> 1 < Field.width small_field \<and> 1 < Field.h small_field
   \<and> live_neighbours small_field 1 1 = 3 \<and> Next small_field 1 1 = Inr True"
proof -
  have ok: "field_ok small_field" by (rule small_field_ok)
  have w: "(1::int) < Field.width small_field" and h: "(1::int) < Field.h small_field"
    by (simp_all add: small_field_def)
  have n: "live_neighbours small_field 1 1 = 3"
    by (simp add: live_neighbours_def offsets_def cell_def small_field_def)
  from Next_transition_rule [OF ok _ w _ h] have "Next small_field 1 1 = Inr True"
    by (simp add: n)
  with ok w h n show ?thesis by simp
qed

section \<open>Reading a field\<close>

text \<open>
  Claim C4. On a well-formed field of width \<open>W\<close> and height \<open>H\<close>, \<^verbatim>\<open>Alive(-1, 0)\<close>
  equals \<^verbatim>\<open>Alive(W-1, 0)\<close> and \<^verbatim>\<open>Alive(W, 0)\<close> equals \<^verbatim>\<open>Alive(0, 0)\<close>; along the
  other axis \<^verbatim>\<open>Alive(0, -1)\<close> equals \<^verbatim>\<open>Alive(0, H-1)\<close> and \<^verbatim>\<open>Alive(0, H)\<close> equals
  \<^verbatim>\<open>Alive(0, 0)\<close>. None of these calls panics: each returns the stored cell.
\<close>

theorem Alive_toroidal_wrap:
  assumes ok: "field_ok f"
  shows "Alive f (- 1) 0 = Alive f (Field.width f - 1) 0
    \<and> Alive f (Field.width f) 0 = Alive f 0 0
    \<and> Alive f 0 (- 1) = Alive f 0 (Field.h f - 1)
    \<and> Alive f 0 (Field.h f) = Alive f 0 0
    \<and> Alive f (Field.width f - 1) 0 = Inr (cell f (Field.width f - 1) 0)
    \<and> Alive f 0 (Field.h f - 1) = Inr (cell f 0 (Field.h f - 1))
    \<and> Alive f 0 0 = Inr (cell f 0 0)"
proof -
  from ok have W: "0 < Field.width f" and H: "0 < Field.h f"
    by (simp_all add: field_ok_def)
  have m1: "(- 1) mod Field.width f = Field.width f - 1" "(- 1) mod Field.h f = Field.h f - 1"
    using W H by (simp_all add: zmod_minus1)
  have 1: "Alive f (- 1) 0 = Inr (cell f (Field.width f - 1) 0)"
    using Alive_near [OF ok, of "- 1" 0] W H by (simp add: m1)
  have 2: "Alive f (Field.width f - 1) 0 = Inr (cell f (Field.width f - 1) 0)"
    using Alive_in [OF ok, of "Field.width f - 1" 0] W H by simp
  have 3: "Alive f (Field.width f) 0 = Inr (cell f 0 0)"
    using Alive_near [OF ok, of "Field.width f" 0] W H by simp
  have 4: "Alive f 0 0 = Inr (cell f 0 0)"
    using Alive_in [OF ok, of 0 0] W H by simp
  have 5: "Alive f 0 (- 1) = Inr (cell f 0 (Field.h f - 1))"
    using Alive_near [OF ok, of 0 "- 1"] W H by (simp add: m1)
  have 6: "Alive f 0 (Field.h f - 1) = Inr (cell f 0 (Field.h f - 1))"
    using Alive_in [OF ok, of 0 "Field.h f - 1"] W H by simp
  have 7: "Alive f 0 (Field.h f) = Inr (cell f 0 0)"
    using Alive_near [OF ok, of 0 "Field.h f"] W H by simp
  show ?thesis by (simp only: 1 2 3 4 5 6 7)
qed

text \<open>The wrapped reads on \<open>small_field\<close>.\<close>

theorem Alive_toroidal_wrap_witness:
  "field_ok small_field \<and> Alive small_field (- 1) 0 = Inr False \<and> Alive small_field 2 0 = Inr False
   \<and> Alive small_field 3 0 = Inr True \<and> Alive small_field 0 0 = Inr True
   \<and> Alive small_field 0 (- 1) = Inr False \<and> Alive small_field 0 3 = Inr True"
proof -
  have ok: "field_ok small_field" by (rule small_field_ok)
  have c: "cell small_field 2 0 = False" "cell small_field 0 0 = True" "cell small_field 0 2 = False"
    by (simp_all add: cell_def small_field_def)
  have d: "Field.width small_field = 3" "Field.h small_field = 3"
    by (simp_all add: small_field_def)
  from Alive_toroidal_wrap [OF ok] show ?thesis
    using ok by (simp add: d c)
qed

text \<open>
  Claim C3 says that \<^verbatim>\<open>Alive\<close> normalises arbitrary integers into the field, as the
  comment on \<^verbatim>\<open>Alive\<close> in the source does (coordinates outside the field boundaries
  are wrapped toroidally). The code adds the dimension once before taking Go's truncated
  remainder, so a coordinate more than one dimension below zero keeps a negative index:
  on a field of width \<open>3\<close>, \<^verbatim>\<open>Alive(-4, 0)\<close> panics instead of reading column \<open>2\<close>.
\<close>

theorem Alive_beyond_one_wrap_fails:
  "Alive small_field (- 4) 0 = Inl IndexOutOfRange"
  by (simp add: Alive_def rem64_def add64_def wrap64_def index_def small_field_def
      signed_modulo_int_def)

text \<open>
  Claim C10 says that \<^verbatim>\<open>Alive\<close> returns exactly when \<open>x \<ge> -W\<close> and \<open>y \<ge> -H\<close>.
  On a field of width \<open>3\<close>, \<^verbatim>\<open>Alive(-6, 0)\<close> returns the cell \<open>(0, 0)\<close> although
  \<open>-6 < -3\<close>: the sum \<open>-6 + 3\<close> is a multiple of the width and its remainder is \<open>0\<close>.
\<close>

theorem Alive_total_counterexample:
  "Alive small_field (- 6) 0 = Inr True \<and> \<not> (- Field.width small_field \<le> - 6)"
  by (simp add: Alive_def rem64_def add64_def wrap64_def index_def small_field_def
      signed_modulo_int_def)

text \<open>
  Claim C10, amended. On a well-formed field of width \<open>W\<close> and height \<open>H\<close>, \<^verbatim>\<open>Alive\<close>
  returns exactly when the 64-bit sum \<open>x + W\<close> is non-negative or a multiple of \<open>W\<close>,
  and the 64-bit sum \<open>y + H\<close> is non-negative or a multiple of \<open>H\<close>. It then returns
  the stored cell at column \<open>(x + W) mod W\<close> and row \<open>(y + H) mod H\<close>; otherwise the
  index is negative and the access panics with an index out of range. In particular
  \<^verbatim>\<open>Alive\<close> returns whenever \<open>-W \<le> x \<le> max_int - W\<close> and \<open>-H \<le> y \<le> max_int - H\<close>.
  \<^verbatim>\<open>Next\<close> passes offsets \<open>-1\<close>, \<open>0\<close>, \<open>1\<close> from coordinates inside the field only,
  and never panics there.
\<close>

theorem Alive_total_iff:
  assumes ok: "field_ok f"
  shows "(let sx = add64 x (Field.width f); sy = add64 y (Field.h f);
              inside = (0 \<le> sx \<or> Field.width f dvd sx) \<and> (0 \<le> sy \<or> Field.h f dvd sy)
          in ((\<exists>v. Alive f x y = Inr v) \<longleftrightarrow> inside)
           \<and> (inside \<longrightarrow> Alive f x y = Inr (cell f (sx mod Field.width f) (sy mod Field.h f)))
           \<and> (\<not> inside \<longrightarrow> Alive f x y = Inl IndexOutOfRange))
    \<and> (- Field.width f \<le> x \<and> x \<le> max_int - Field.width f \<and>
        - Field.h f \<le> y \<and> y \<le> max_int - Field.h f \<longrightarrow>
          Alive f x y = Inr (cell f ((x + Field.width f) mod Field.width f) ((y + Field.h f) mod Field.h f)))
    \<and> (0 \<le> x \<and> x < Field.width f \<and> 0 \<le> y \<and> y < Field.h f \<longrightarrow> (\<exists>v. Next f x y = Inr v))"
proof -
  let ?sx = "add64 x (Field.width f)" and ?sy = "add64 y (Field.h f)"
  let ?inside = "(0 \<le> ?sx \<or> Field.width f dvd ?sx) \<and> (0 \<le> ?sy \<or> Field.h f dvd ?sy)"
  have good: "Alive f x y = Inr (cell f (?sx mod Field.width f) (?sy mod Field.h f))" if ?inside
    using that by (intro Alive_wrapped [OF ok]) simp_all
  have bad: "Alive f x y = Inl IndexOutOfRange" if "\<not> ?inside"
  proof (cases "0 \<le> ?sx \<or> Field.width f dvd ?sx")
    case True
    with that have "?sy < 0" "\<not> Field.h f dvd ?sy" by auto
    then show ?thesis by (intro Alive_fails_y [OF ok])
  next
    case False
    then have "?sx < 0" "\<not> Field.width f dvd ?sx" by auto
    then show ?thesis by (intro Alive_fails_x [OF ok])
  qed
  have iff: "(\<exists>v. Alive f x y = Inr v) \<longleftrightarrow> ?inside"
    using good bad by (cases ?inside) simp_all
  have near: "Alive f x y =
      Inr (cell f ((x + Field.width f) mod Field.width f) ((y + Field.h f) mod Field.h f))"
    if r: "- Field.width f \<le> x \<and> x \<le> max_int - Field.width f \<and>
        - Field.h f \<le> y \<and> y \<le> max_int - Field.h f"
  proof -
    have "int64 (x + Field.width f)" "int64 (y + Field.h f)"
      using r by (simp_all add: int64_def min_int_def)
    then have e: "?sx = x + Field.width f" "?sy = y + Field.h f"
      by (simp_all add: add64_id)
    with r have ?inside by simp
    from good [OF this] show ?thesis by (simp only: e)
  qed
  have nxt: "\<exists>v. Next f x y = Inr v"
    if "0 \<le> x \<and> x < Field.width f \<and> 0 \<le> y \<and> y < Field.h f"
    using Next_rule [OF ok, of x y] that by simp
  show ?thesis
    unfolding Let_def using good bad iff near nxt by blast
qed

text \<open>
  On \<open>small_field\<close>: a read one wrap below and beyond the field, a read that panics, and
  \<^verbatim>\<open>Next\<close> at a corner.
\<close>

theorem Alive_total_iff_witness:
  "field_ok small_field
   \<and> Alive small_field (- 3) 4 = Inr False
   \<and> Alive small_field (- 5) 0 = Inl IndexOutOfRange
   \<and> (\<exists>v. Next small_field 2 2 = Inr v)"
proof -
  have ok: "field_ok small_field" by (rule small_field_ok)
  have d: "Field.width small_field = 3" "Field.h small_field = 3"
    by (simp_all add: small_field_def)
  have v: "add64 (- 3) 3 = 0" "add64 4 3 = 7" "add64 (- 5) 3 = - 2" "add64 0 3 = 3"
    by (simp_all add: add64_def wrap64_def)
  have c: "cell small_field 0 1 = False" "cell small_field 0 0 = True" "cell small_field 1 0 = True"
    by (simp_all add: cell_def small_field_def)
  have 1: "Alive small_field (- 3) 4 = Inr False"
    using Alive_total_iff [OF ok, of "- 3" 4] by (simp add: d v c Let_def)
  have 2: "Alive small_field (- 5) 0 = Inl IndexOutOfRange"
    using Alive_total_iff [OF ok, of "- 5" 0] by (simp add: d v Let_def)
  have 3: "\<exists>v. Next small_field 2 2 = Inr v"
    using Alive_total_iff [OF ok, of 2 2] by (simp add: d)
  from ok 1 2 3 show ?thesis by simp
qed

section \<open>One generation\<close>

lemma Next_next_cell:
  "field_ok f \<Longrightarrow> 0 \<le> x \<Longrightarrow> x < Field.width f \<Longrightarrow> 0 \<le> y \<Longrightarrow> y < Field.h f \<Longrightarrow>
   Next f x y = Inr (next_cell f x y)"
  by (simp add: Next_rule next_cell_def)

lemma field_ok_update:
  assumes ok: "field_ok f" and y: "0 \<le> y" "y < Field.h f"
  shows "field_ok (f\<lparr>s := (s f)[nat y := (s f ! nat y)[nat x := v]]\<rparr>)"
proof -
  have "list_all (\<lambda>row. length row = nat (Field.width f)) ((s f)[nat y := (s f ! nat y)[nat x := v]])"
    using ok y unfolding field_ok_def list_all_length
    by (auto simp: nth_list_update)
  with ok show ?thesis by (simp add: field_ok_def)
qed

lemma cell_update:
  assumes ok: "field_ok f" and x: "0 \<le> x" "x < Field.width f" and y: "0 \<le> y" "y < Field.h f"
    and u: "0 \<le> u" "u < Field.width f" and w: "0 \<le> w" "w < Field.h f"
  shows "cell (f\<lparr>s := (s f)[nat y := (s f ! nat y)[nat x := v]]\<rparr>) u w =
    (if u = x \<and> w = y then v else cell f u w)"
proof -
  from ok have len: "length (s f) = nat (Field.h f)" by (simp add: field_ok_def)
  have row: "length (s f ! nat y) = nat (Field.width f)" using ok y by (rule field_ok_row)
  show ?thesis
    using x y u w len row by (auto simp: cell_def nth_list_update nat_eq_iff)
qed

lemma Set_ok:
  assumes ok: "field_ok f" and x: "0 \<le> x" "x < Field.width f" and y: "0 \<le> y" "y < Field.h f"
  shows "Set f x y v = Inr (f\<lparr>s := (s f)[nat y := (s f ! nat y)[nat x := v]]\<rparr>)"
proof -
  from ok have len: "length (s f) = nat (Field.h f)" by (simp add: field_ok_def)
  have row: "length (s f ! nat y) = nat (Field.width f)" using ok y by (rule field_ok_row)
  have "index (s f) y = Inr (s f ! nat y)" using y len by (simp add: index_ok)
  then show ?thesis using x row by (simp add: Set_def)
qed


lemma life_ok_update:
  assumes ok: "life_ok grid hp" and f: "field_ok ((hp ! b grid)\<lparr>s := rows\<rparr>)"
  shows "life_ok grid (hp[b grid := (hp ! b grid)\<lparr>s := rows\<rparr>])"
  using ok f by (simp add: life_ok_def)

lemma Step_x_result:
  assumes "life_ok grid hp" and "0 \<le> y" and "y < Life.h grid" and "0 \<le> x"
  shows "\<exists>rows. Step_x grid hp y x = Inr (hp[b grid := (hp ! b grid)\<lparr>s := rows\<rparr>])
    \<and> field_ok ((hp ! b grid)\<lparr>s := rows\<rparr>)
    \<and> (\<forall>u w. 0 \<le> u \<longrightarrow> u < Life.width grid \<longrightarrow> 0 \<le> w \<longrightarrow> w < Life.h grid \<longrightarrow>
          cell ((hp ! b grid)\<lparr>s := rows\<rparr>) u w =
            (if w = y \<and> x \<le> u then next_cell (hp ! a grid) u w else cell (hp ! b grid) u w))"
  using assms
proof (induction grid hp y x rule: Step_x.induct)
  case (1 grid hp y x)
  let ?fa = "hp ! a grid" and ?fb = "hp ! b grid"
  from "1.prems"(1) have pa: "a grid < length hp" and pb: "b grid < length hp"
    and ne: "a grid \<noteq> b grid" and oka: "field_ok ?fa" and okb: "field_ok ?fb"
    and wa: "Field.width ?fa = Life.width grid" and ha: "Field.h ?fa = Life.h grid"
    and wb: "Field.width ?fb = Life.width grid" and hb: "Field.h ?fb = Life.h grid"
    by (simp_all add: life_ok_def)
  note y = "1.prems"(2,3) and x = "1.prems"(4)
  show ?case
  proof (cases "x < Life.width grid")
    case False
    have "Step_x grid hp y x = Inr hp"
      using False by (subst Step_x.simps) simp
    moreover have "hp[b grid := ?fb\<lparr>s := s ?fb\<rparr>] = hp" by simp
    moreover have "field_ok (?fb\<lparr>s := s ?fb\<rparr>)" using okb by simp
    moreover have "\<forall>u w. 0 \<le> u \<longrightarrow> u < Life.width grid \<longrightarrow> 0 \<le> w \<longrightarrow> w < Life.h grid \<longrightarrow>
          cell (?fb\<lparr>s := s ?fb\<rparr>) u w =
            (if w = y \<and> x \<le> u then next_cell ?fa u w else cell ?fb u w)"
      using False by simp
    ultimately show ?thesis by metis
  next
    case True
    let ?v = "next_cell ?fa x y"
    let ?r1 = "(s ?fb)[nat y := (s ?fb ! nat y)[nat x := ?v]]"
    let ?f1 = "?fb\<lparr>s := ?r1\<rparr>"
    let ?hp1 = "hp[b grid := ?f1]"
    have da: "deref hp (a grid) = Inr ?fa" using pa by (simp add: deref_def)
    have db: "deref hp (b grid) = Inr ?fb" using pb by (simp add: deref_def)
    have nx: "Next ?fa x y = Inr ?v"
      using oka x True y by (intro Next_next_cell) (simp_all add: wa ha)
    have st: "Set ?fb x y ?v = Inr ?f1"
      using okb x True y by (intro Set_ok) (simp_all add: wb hb)
    have ok1: "field_ok ?f1"
      using okb y by (intro field_ok_update) (simp_all add: hb)
    have lok1: "life_ok grid ?hp1"
      using "1.prems"(1) ok1 by (rule life_ok_update)
    have unfold: "Step_x grid hp y x = Step_x grid ?hp1 y (x + 1)"
      using True by (subst Step_x.simps) (simp add: da db nx st)
    from "1.IH" [OF True da nx db st lok1 y] x
    obtain rows where
      run: "Step_x grid ?hp1 y (x + 1) = Inr (?hp1[b grid := (?hp1 ! b grid)\<lparr>s := rows\<rparr>])"
      and okr: "field_ok ((?hp1 ! b grid)\<lparr>s := rows\<rparr>)"
      and cells: "\<And>u w. 0 \<le> u \<Longrightarrow> u < Life.width grid \<Longrightarrow> 0 \<le> w \<Longrightarrow> w < Life.h grid \<Longrightarrow>
          cell ((?hp1 ! b grid)\<lparr>s := rows\<rparr>) u w =
            (if w = y \<and> x + 1 \<le> u then next_cell (?hp1 ! a grid) u w else cell (?hp1 ! b grid) u w)"
      by auto
    have b1: "(?hp1 ! b grid)\<lparr>s := rows\<rparr> = ?fb\<lparr>s := rows\<rparr>" using pb by simp
    have a1: "?hp1 ! a grid = ?fa" using ne by simp
    have f1: "?hp1 ! b grid = ?f1" using pb by simp
    have res: "Step_x grid hp y x = Inr (hp[b grid := ?fb\<lparr>s := rows\<rparr>])"
      using run pb by (simp add: unfold)
    have okr': "field_ok (?fb\<lparr>s := rows\<rparr>)" using okr by (simp only: b1)
    have "cell (?fb\<lparr>s := rows\<rparr>) u w =
            (if w = y \<and> x \<le> u then next_cell ?fa u w else cell ?fb u w)"
      if u: "0 \<le> u" "u < Life.width grid" and w: "0 \<le> w" "w < Life.h grid" for u w
    proof -
      have c1: "cell ?f1 u w = (if u = x \<and> w = y then ?v else cell ?fb u w)"
        using okb x True y u w by (intro cell_update) (simp_all add: wb hb)
      have "cell (?fb\<lparr>s := rows\<rparr>) u w =
          (if w = y \<and> x + 1 \<le> u then next_cell ?fa u w else cell ?f1 u w)"
        using cells [OF u w] unfolding a1 f1 by simp
      with c1 show ?thesis by auto
    qed
    with res okr' show ?thesis by blast
  qed
qed


lemma Step_y_result:
  assumes "life_ok grid hp" and "0 \<le> y"
  shows "\<exists>rows. Step_y grid hp y = Inr (hp[b grid := (hp ! b grid)\<lparr>s := rows\<rparr>])
    \<and> field_ok ((hp ! b grid)\<lparr>s := rows\<rparr>)
    \<and> (\<forall>u w. 0 \<le> u \<longrightarrow> u < Life.width grid \<longrightarrow> 0 \<le> w \<longrightarrow> w < Life.h grid \<longrightarrow>
          cell ((hp ! b grid)\<lparr>s := rows\<rparr>) u w =
            (if y \<le> w then next_cell (hp ! a grid) u w else cell (hp ! b grid) u w))"
  using assms
proof (induction grid hp y rule: Step_y.induct)
  case (1 grid hp y)
  let ?fa = "hp ! a grid" and ?fb = "hp ! b grid"
  from "1.prems"(1) have pb: "b grid < length hp" and ne: "a grid \<noteq> b grid"
    and okb: "field_ok ?fb"
    by (simp_all add: life_ok_def)
  note y = "1.prems"(2)
  show ?case
  proof (cases "y < Life.h grid")
    case False
    have "Step_y grid hp y = Inr hp"
      using False by (subst Step_y.simps) simp
    moreover have "hp[b grid := ?fb\<lparr>s := s ?fb\<rparr>] = hp" by simp
    moreover have "field_ok (?fb\<lparr>s := s ?fb\<rparr>)" using okb by simp
    moreover have "\<forall>u w. 0 \<le> u \<longrightarrow> u < Life.width grid \<longrightarrow> 0 \<le> w \<longrightarrow> w < Life.h grid \<longrightarrow>
          cell (?fb\<lparr>s := s ?fb\<rparr>) u w =
            (if y \<le> w then next_cell ?fa u w else cell ?fb u w)"
      using False by simp
    ultimately show ?thesis by metis
  next
    case True
    from Step_x_result [OF "1.prems"(1) y True, of 0]
    obtain r1 where
      row: "Step_x grid hp y 0 = Inr (hp[b grid := ?fb\<lparr>s := r1\<rparr>])"
      and ok1: "field_ok (?fb\<lparr>s := r1\<rparr>)"
      and c1: "\<And>u w. 0 \<le> u \<Longrightarrow> u < Life.width grid \<Longrightarrow> 0 \<le> w \<Longrightarrow> w < Life.h grid \<Longrightarrow>
          cell (?fb\<lparr>s := r1\<rparr>) u w =
            (if w = y \<and> 0 \<le> u then next_cell ?fa u w else cell ?fb u w)"
      by auto
    let ?hp1 = "hp[b grid := ?fb\<lparr>s := r1\<rparr>]"
    have lok1: "life_ok grid ?hp1"
      using "1.prems"(1) ok1 by (rule life_ok_update)
    have unfold: "Step_y grid hp y = Step_y grid ?hp1 (y + 1)"
      using True by (subst Step_y.simps) (simp add: row)
    from "1.IH" [OF True row lok1] y
    obtain rows where
      run: "Step_y grid ?hp1 (y + 1) = Inr (?hp1[b grid := (?hp1 ! b grid)\<lparr>s := rows\<rparr>])"
      and okr: "field_ok ((?hp1 ! b grid)\<lparr>s := rows\<rparr>)"
      and cells: "\<And>u w. 0 \<le> u \<Longrightarrow> u < Life.width grid \<Longrightarrow> 0 \<le> w \<Longrightarrow> w < Life.h grid \<Longrightarrow>
          cell ((?hp1 ! b grid)\<lparr>s := rows\<rparr>) u w =
            (if y + 1 \<le> w then next_cell (?hp1 ! a grid) u w else cell (?hp1 ! b grid) u w)"
      by auto
    have a1: "?hp1 ! a grid = ?fa" using ne by simp
    have f1: "?hp1 ! b grid = ?fb\<lparr>s := r1\<rparr>" using pb by simp
    have res: "Step_y grid hp y = Inr (hp[b grid := ?fb\<lparr>s := rows\<rparr>])"
      using run pb by (simp add: unfold)
    have okr': "field_ok (?fb\<lparr>s := rows\<rparr>)" using okr unfolding f1 by simp
    have "cell (?fb\<lparr>s := rows\<rparr>) u w =
            (if y \<le> w then next_cell ?fa u w else cell ?fb u w)"
      if u: "0 \<le> u" "u < Life.width grid" and w: "0 \<le> w" "w < Life.h grid" for u w
    proof -
      have "cell (?fb\<lparr>s := rows\<rparr>) u w =
          (if y + 1 \<le> w then next_cell ?fa u w else cell (?fb\<lparr>s := r1\<rparr>) u w)"
        using cells [OF u w] unfolding a1 f1 by simp
      with c1 [OF u w] u show ?thesis by auto
    qed
    with res okr' show ?thesis by blast
  qed
qed

lemma tabulate_eq:
  assumes ok: "field_ok f"
    and cells: "\<And>u w. 0 \<le> u \<Longrightarrow> u < Field.width f \<Longrightarrow> 0 \<le> w \<Longrightarrow> w < Field.h f \<Longrightarrow>
      cell f u w = P u w"
  shows "s f = tabulate (Field.width f) (Field.h f) P"
proof (rule nth_equalityI)
  from ok have len: "length (s f) = nat (Field.h f)" by (simp add: field_ok_def)
  then show "length (s f) = length (tabulate (Field.width f) (Field.h f) P)"
    by (simp add: tabulate_def)
  fix k assume "k < length (s f)"
  with len have k: "0 \<le> int k" "int k < Field.h f" by simp_all
  have rl: "length (s f ! k) = nat (Field.width f)"
    using field_ok_row [OF ok k] by simp
  show "s f ! k = tabulate (Field.width f) (Field.h f) P ! k"
  proof (rule nth_equalityI)
    show "length (s f ! k) = length (tabulate (Field.width f) (Field.h f) P ! k)"
      using k rl by (simp add: tabulate_def)
    fix m assume "m < length (s f ! k)"
    with rl have m: "0 \<le> int m" "int m < Field.width f" by simp_all
    from cells [OF m k] show "s f ! k ! m = tabulate (Field.width f) (Field.h f) P ! k ! m"
      using k m by (simp add: tabulate_def cell_def)
  qed
qed

lemma Step_result:
  assumes ok: "life_ok grid hp"
  shows "Step grid hp =
    Inr (grid\<lparr>a := b grid, b := a grid\<rparr>,
         hp[b grid := (hp ! b grid)\<lparr>s := tabulate (Life.width grid) (Life.h grid)
                                          (next_cell (hp ! a grid))\<rparr>])"
proof -
  let ?fa = "hp ! a grid" and ?fb = "hp ! b grid"
  from ok have wb: "Field.width ?fb = Life.width grid" and hb: "Field.h ?fb = Life.h grid"
    by (simp_all add: life_ok_def)
  from Step_y_result [OF ok, of 0]
  obtain rows where
    run: "Step_y grid hp 0 = Inr (hp[b grid := ?fb\<lparr>s := rows\<rparr>])"
    and okr: "field_ok (?fb\<lparr>s := rows\<rparr>)"
    and cells: "\<And>u w. 0 \<le> u \<Longrightarrow> u < Life.width grid \<Longrightarrow> 0 \<le> w \<Longrightarrow> w < Life.h grid \<Longrightarrow>
        cell (?fb\<lparr>s := rows\<rparr>) u w = (if 0 \<le> w then next_cell ?fa u w else cell ?fb u w)"
    by auto
  have "s (?fb\<lparr>s := rows\<rparr>) =
      tabulate (Field.width (?fb\<lparr>s := rows\<rparr>)) (Field.h (?fb\<lparr>s := rows\<rparr>)) (next_cell ?fa)"
    using okr by (rule tabulate_eq) (simp add: cells wb hb)
  then have "rows = tabulate (Life.width grid) (Life.h grid) (next_cell ?fa)"
    by (simp add: wb hb)
  with run show ?thesis by (simp add: Step_def)
qed

lemma tabulate_ok:
  assumes "0 < wd" "0 < ht" "2 * wd \<le> max_int" "2 * ht \<le> max_int"
  shows "field_ok \<lparr>s = tabulate wd ht P, width = wd, h = ht\<rparr>"
  using assms by (simp add: field_ok_def tabulate_def list_all_iff)

lemma cell_tabulate:
  assumes "0 \<le> u" "u < wd" "0 \<le> w" "w < ht" "s f = tabulate wd ht P"
  shows "cell f u w = P u w"
  using assms by (simp add: cell_def tabulate_def)

lemma tabulate_cong:
  assumes "\<And>u w. 0 \<le> u \<Longrightarrow> u < wd \<Longrightarrow> 0 \<le> w \<Longrightarrow> w < ht \<Longrightarrow> P u w = Q u w"
  shows "tabulate wd ht P = tabulate wd ht Q"
  using assms by (simp add: tabulate_def)

lemma field_ok_tabulate:
  assumes "field_ok f"
  shows "field_ok (f\<lparr>s := tabulate (Field.width f) (Field.h f) P\<rparr>)"
  using assms by (simp add: field_ok_def tabulate_def list_all_iff)

lemma Step_life_ok:
  assumes ok: "life_ok grid hp" and st: "Step grid hp = Inr (grid', hp')"
  shows "life_ok grid' hp'"
proof -
  from ok have okb: "field_ok (hp ! b grid)" by (simp add: life_ok_def)
  from st have g: "grid' = grid\<lparr>a := b grid, b := a grid\<rparr>"
    and h: "hp' = hp[b grid := (hp ! b grid)\<lparr>s := tabulate (Life.width grid) (Life.h grid)
                                          (next_cell (hp ! a grid))\<rparr>]"
    unfolding Step_result [OF ok] by simp_all
  have "field_ok ((hp ! b grid)\<lparr>s := tabulate (Field.width (hp ! b grid)) (Field.h (hp ! b grid))
      (next_cell (hp ! a grid))\<rparr>)"
    using okb by (rule field_ok_tabulate)
  with ok show ?thesis
    unfolding g h by (simp add: life_ok_def)
qed

lemma mod_succ: "0 \<le> u \<Longrightarrow> u < wd \<Longrightarrow> (u + 1) mod wd = (if u = wd - 1 then 0 else u + 1)" for u :: int
  by simp

lemma mod_pred: "0 \<le> u \<Longrightarrow> u < wd \<Longrightarrow> (u - 1) mod wd = (if u = 0 then wd - 1 else u - 1)" for u :: int
  by (simp add: zmod_minus1)

lemma nb_tabulate:
  assumes ok: "field_ok f" and tab: "s f = tabulate (Field.width f) (Field.h f) P"
  shows "nb f u w i j = (if P ((u + i) mod Field.width f) ((w + j) mod Field.h f) then 1 else 0)"
proof -
  from ok have W: "0 < Field.width f" and H: "0 < Field.h f" by (simp_all add: field_ok_def)
  have "cell f ((u + i) mod Field.width f) ((w + j) mod Field.h f) =
      P ((u + i) mod Field.width f) ((w + j) mod Field.h f)"
    using W H tab by (intro cell_tabulate [where wd = "Field.width f" and ht = "Field.h f"]) simp_all
  then show ?thesis by (simp add: nb_def)
qed

lemma next_cell_tabulate:
  assumes ok: "field_ok f" and tab: "s f = tabulate (Field.width f) (Field.h f) P"
    and u: "0 \<le> u" "u < Field.width f" and w: "0 \<le> w" "w < Field.h f"
  shows "next_cell f u w \<longleftrightarrow>
    (let l = (u - 1) mod Field.width f; r = (u + 1) mod Field.width f;
         d = (w - 1) mod Field.h f; e = (w + 1) mod Field.h f;
         n = (of_bool (P l d) + of_bool (P l w) + of_bool (P l e) +
              of_bool (P u d) + of_bool (P u e) +
              of_bool (P r d) + of_bool (P r w) + of_bool (P r e) :: int)
     in n = 3 \<or> n = 2 \<and> P u w)"
proof -
  have 3: "live_neighbours f u w = 3 \<longleftrightarrow> int (live_neighbours f u w) = 3" by linarith
  have 2: "live_neighbours f u w = 2 \<longleftrightarrow> int (live_neighbours f u w) = 2" by linarith
  have c: "cell f u w = P u w"
    using u w tab by (intro cell_tabulate [where wd = "Field.width f" and ht = "Field.h f"])
  have m: "u mod Field.width f = u" "w mod Field.h f = w" using u w by simp_all
  show ?thesis
    unfolding next_cell_def 2 3 live_neighbours_sum nb_tabulate [OF ok tab] c Let_def
    by (simp add: m of_bool_def)
qed

section \<open>Still life and oscillator\<close>

lemma block_count:
  assumes "\<not> (cm \<and> cp)" and "c0 \<longrightarrow> cm \<or> cp" and "\<not> (rm \<and> rp)" and "r0 \<longrightarrow> rm \<or> rp"
  shows "(let n = (of_bool (cm \<and> rm) + of_bool (cm \<and> r0) + of_bool (cm \<and> rp) +
                   of_bool (c0 \<and> rm) + of_bool (c0 \<and> rp) +
                   of_bool (cp \<and> rm) + of_bool (cp \<and> r0) + of_bool (cp \<and> rp) :: int)
          in n = 3 \<or> n = 2 \<and> c0 \<and> r0) \<longleftrightarrow> c0 \<and> r0"
  using assms by (cases cm; cases c0; cases cp; cases rm; cases r0; cases rp) simp_all

lemma block_columns:
  fixes u :: int
  assumes "4 \<le> wd" and "0 \<le> x0" and "x0 + 1 < wd" and "0 \<le> u" and "u < wd"
  shows "\<not> (((u - 1) mod wd = x0 \<or> (u - 1) mod wd = x0 + 1) \<and>
            ((u + 1) mod wd = x0 \<or> (u + 1) mod wd = x0 + 1))"
    and "u = x0 \<or> u = x0 + 1 \<longrightarrow>
          ((u - 1) mod wd = x0 \<or> (u - 1) mod wd = x0 + 1) \<or>
          ((u + 1) mod wd = x0 \<or> (u + 1) mod wd = x0 + 1)"
  using assms by (auto simp: mod_succ mod_pred split: if_splits)

lemma next_cell_block:
  assumes ok: "field_ok f" and tab: "s f = tabulate (Field.width f) (Field.h f) (block x0 y0)"
    and W: "4 \<le> Field.width f" and H: "4 \<le> Field.h f"
    and x0: "0 \<le> x0" "x0 + 1 < Field.width f" and y0: "0 \<le> y0" "y0 + 1 < Field.h f"
    and u: "0 \<le> u" "u < Field.width f" and w: "0 \<le> w" "w < Field.h f"
  shows "next_cell f u w = block x0 y0 u w"
  unfolding next_cell_tabulate [OF ok tab u w] Let_def block_def
  using block_count [OF block_columns [OF W x0 u] block_columns [OF H y0 w]]
  unfolding Let_def by simp


lemma next_cell_blinker_h:
  assumes ok: "field_ok f" and tab: "s f = tabulate (Field.width f) (Field.h f) blinker_h"
    and W: "5 \<le> Field.width f" and H: "5 \<le> Field.h f"
    and u: "0 \<le> u" "u < Field.width f" and w: "0 \<le> w" "w < Field.h f"
  shows "next_cell f u w = blinker_v u w"
proof -
  have l: "(u - 1) mod Field.width f = (if u = 0 then Field.width f - 1 else u - 1)"
    using u by (rule mod_pred)
  have r: "(u + 1) mod Field.width f = (if u = Field.width f - 1 then 0 else u + 1)"
    using u by (rule mod_succ)
  have d: "(w - 1) mod Field.h f = (if w = 0 then Field.h f - 1 else w - 1)"
    using w by (rule mod_pred)
  have e: "(w + 1) mod Field.h f = (if w = Field.h f - 1 then 0 else w + 1)"
    using w by (rule mod_succ)
  show ?thesis
    unfolding next_cell_tabulate [OF ok tab u w] Let_def l r d e blinker_h_def blinker_v_def
    using W H u w by (auto split: if_splits)
qed

lemma next_cell_blinker_v:
  assumes ok: "field_ok f" and tab: "s f = tabulate (Field.width f) (Field.h f) blinker_v"
    and W: "5 \<le> Field.width f" and H: "5 \<le> Field.h f"
    and u: "0 \<le> u" "u < Field.width f" and w: "0 \<le> w" "w < Field.h f"
  shows "next_cell f u w = blinker_h u w"
proof -
  have l: "(u - 1) mod Field.width f = (if u = 0 then Field.width f - 1 else u - 1)"
    using u by (rule mod_pred)
  have r: "(u + 1) mod Field.width f = (if u = Field.width f - 1 then 0 else u + 1)"
    using u by (rule mod_succ)
  have d: "(w - 1) mod Field.h f = (if w = 0 then Field.h f - 1 else w - 1)"
    using w by (rule mod_pred)
  have e: "(w + 1) mod Field.h f = (if w = Field.h f - 1 then 0 else w + 1)"
    using w by (rule mod_succ)
  show ?thesis
    unfolding next_cell_tabulate [OF ok tab u w] Let_def l r d e blinker_h_def blinker_v_def
    using W H u w by (auto split: if_splits)
qed


lemma Step_pattern:
  assumes ok: "life_ok grid hp"
    and nxt: "\<And>u w. 0 \<le> u \<Longrightarrow> u < Life.width grid \<Longrightarrow> 0 \<le> w \<Longrightarrow> w < Life.h grid \<Longrightarrow>
      next_cell (hp ! a grid) u w = Q u w"
  shows "\<exists>grid' hp'. Step grid hp = Inr (grid', hp') \<and> life_ok grid' hp'
    \<and> Life.width grid' = Life.width grid \<and> Life.h grid' = Life.h grid
    \<and> s (hp' ! a grid') = tabulate (Life.width grid) (Life.h grid) Q"
proof -
  let ?g = "grid\<lparr>a := b grid, b := a grid\<rparr>"
  let ?hp = "hp[b grid := (hp ! b grid)\<lparr>s := tabulate (Life.width grid) (Life.h grid)
                                          (next_cell (hp ! a grid))\<rparr>]"
  have st: "Step grid hp = Inr (?g, ?hp)" using ok by (rule Step_result)
  have lok: "life_ok ?g ?hp" using ok st by (rule Step_life_ok)
  from ok have pb: "b grid < length hp" by (simp add: life_ok_def)
  have "tabulate (Life.width grid) (Life.h grid) (next_cell (hp ! a grid)) =
      tabulate (Life.width grid) (Life.h grid) Q"
    by (rule tabulate_cong) (rule nxt)
  then have "s (?hp ! a ?g) = tabulate (Life.width grid) (Life.h grid) Q"
    using pb by simp
  with st lok show ?thesis by simp
qed

lemma life_ok_current:
  assumes "life_ok grid hp"
  shows "field_ok (hp ! a grid)" and "Field.width (hp ! a grid) = Life.width grid"
    and "Field.h (hp ! a grid) = Life.h grid"
  using assms by (simp_all add: life_ok_def)

lemma Steps_block:
  assumes "life_ok grid hp" and "4 \<le> Life.width grid" and "4 \<le> Life.h grid"
    and "0 \<le> x0" and "x0 + 1 < Life.width grid" and "0 \<le> y0" and "y0 + 1 < Life.h grid"
    and "s (hp ! a grid) = tabulate (Life.width grid) (Life.h grid) (block x0 y0)"
  shows "\<exists>grid' hp'. Steps n grid hp = Inr (grid', hp') \<and> life_ok grid' hp'
    \<and> Life.width grid' = Life.width grid \<and> Life.h grid' = Life.h grid
    \<and> s (hp' ! a grid') = tabulate (Life.width grid) (Life.h grid) (block x0 y0)"
  using assms
proof (induction n arbitrary: grid hp)
  case 0
  then show ?case by simp
next
  case (Suc n)
  note ok = life_ok_current [OF Suc.prems(1)]
  have "\<exists>g1 hp1. Step grid hp = Inr (g1, hp1) \<and> life_ok g1 hp1
    \<and> Life.width g1 = Life.width grid \<and> Life.h g1 = Life.h grid
    \<and> s (hp1 ! a g1) = tabulate (Life.width grid) (Life.h grid) (block x0 y0)"
    using Suc.prems(1)
  proof (rule Step_pattern)
    fix u w assume "0 \<le> u" "u < Life.width grid" "0 \<le> w" "w < Life.h grid"
    with Suc.prems show "next_cell (hp ! a grid) u w = block x0 y0 u w"
      by (intro next_cell_block) (simp_all add: ok)
  qed
  then obtain g1 hp1 where st: "Step grid hp = Inr (g1, hp1)" and lok: "life_ok g1 hp1"
    and d: "Life.width g1 = Life.width grid" "Life.h g1 = Life.h grid"
    and tab: "s (hp1 ! a g1) = tabulate (Life.width grid) (Life.h grid) (block x0 y0)"
    by blast
  from Suc.IH [of g1 hp1] lok Suc.prems tab
  have "\<exists>grid' hp'. Steps n g1 hp1 = Inr (grid', hp') \<and> life_ok grid' hp'
    \<and> Life.width grid' = Life.width g1 \<and> Life.h grid' = Life.h g1
    \<and> s (hp' ! a grid') = tabulate (Life.width g1) (Life.h g1) (block x0 y0)"
    by (simp add: d)
  then show ?case by (simp add: st d)
qed

text \<open>
  Claim C5. In a game of at least four columns and four rows whose current field holds
  exactly a block of two by two live cells that does not reach across an edge, any number
  \<open>n\<close> of calls of \<^verbatim>\<open>Step\<close> returns without a panic and leaves the cells of the
  current field as they were: the four cells of the block alive, every other cell dead.
\<close>

theorem block_still_life:
  assumes "life_ok grid hp" and "4 \<le> Life.width grid" and "4 \<le> Life.h grid"
    and "0 \<le> x0" and "x0 + 1 < Life.width grid" and "0 \<le> y0" and "y0 + 1 < Life.h grid"
    and "s (hp ! a grid) = tabulate (Life.width grid) (Life.h grid) (block x0 y0)"
  shows "\<exists>grid' hp'. Steps n grid hp = Inr (grid', hp')
    \<and> s (hp' ! a grid') = s (hp ! a grid)
    \<and> (\<forall>x y. 0 \<le> x \<and> x < Life.width grid \<and> 0 \<le> y \<and> y < Life.h grid \<longrightarrow>
          cell (hp' ! a grid') x y = ((x = x0 \<or> x = x0 + 1) \<and> (y = y0 \<or> y = y0 + 1)))"
proof -
  from Steps_block [OF assms, of n]
  obtain grid' hp' where run: "Steps n grid hp = Inr (grid', hp')"
    and tab: "s (hp' ! a grid') = tabulate (Life.width grid) (Life.h grid) (block x0 y0)"
    by blast
  have "cell (hp' ! a grid') x y = ((x = x0 \<or> x = x0 + 1) \<and> (y = y0 \<or> y = y0 + 1))"
    if "0 \<le> x \<and> x < Life.width grid \<and> 0 \<le> y \<and> y < Life.h grid" for x y
    using that tab cell_tabulate [of x "Life.width grid" y "Life.h grid" "hp' ! a grid'" "block x0 y0"]
    by (simp add: block_def)
  with run tab assms(8) show ?thesis by simp
qed

lemma block_life_ok: "life_ok block_life block_heap"
  by (simp add: life_ok_def block_life_def block_heap_def tabulate_ok max_int_def)

text \<open>The block at \<open>(1, 1)\<close> of a game of four by four cells, after three generations.\<close>

theorem block_still_life_witness:
  "life_ok block_life block_heap \<and> 4 \<le> Life.width block_life \<and> 4 \<le> Life.h block_life
   \<and> (1::int) + 1 < Life.width block_life \<and> (1::int) + 1 < Life.h block_life
   \<and> s (block_heap ! a block_life) = tabulate 4 4 (block 1 1)
   \<and> (\<exists>grid' hp'. Steps 3 block_life block_heap = Inr (grid', hp')
        \<and> s (hp' ! a grid') = tabulate 4 4 (block 1 1))"
proof -
  have ok: "life_ok block_life block_heap" by (rule block_life_ok)
  have d: "Life.width block_life = 4" "Life.h block_life = 4" "a block_life = 0"
    by (simp_all add: block_life_def)
  have tab: "s (block_heap ! a block_life) =
      tabulate (Life.width block_life) (Life.h block_life) (block 1 1)"
    by (simp add: block_heap_def block_life_def)
  from block_still_life [OF ok _ _ _ _ _ _ tab, of 3]
  have "\<exists>grid' hp'. Steps 3 block_life block_heap = Inr (grid', hp')
        \<and> s (hp' ! a grid') = s (block_heap ! a block_life)"
    by (simp add: d) blast
  with ok tab show ?thesis by (simp add: d)
qed


text \<open>
  Claim C6. In a game of at least five columns and five rows whose current field holds
  exactly the horizontal blinker \<open>(1, 2)\<close>, \<open>(2, 2)\<close>, \<open>(3, 2)\<close>, one call of
  \<^verbatim>\<open>Step\<close> yields exactly the vertical blinker \<open>(2, 1)\<close>, \<open>(2, 2)\<close>, \<open>(2, 3)\<close>, and a
  second call restores exactly the horizontal one.
\<close>

theorem blinker_oscillates:
  assumes "life_ok grid hp" and "5 \<le> Life.width grid" and "5 \<le> Life.h grid"
    and "s (hp ! a grid) = tabulate (Life.width grid) (Life.h grid) blinker_h"
  shows "\<exists>g1 hp1 g2 hp2.
      Step grid hp = Inr (g1, hp1)
    \<and> s (hp1 ! a g1) = tabulate (Life.width grid) (Life.h grid) blinker_v
    \<and> Step g1 hp1 = Inr (g2, hp2)
    \<and> s (hp2 ! a g2) = tabulate (Life.width grid) (Life.h grid) blinker_h
    \<and> s (hp2 ! a g2) = s (hp ! a grid)"
proof -
  note ok = life_ok_current [OF assms(1)]
  have "\<exists>g1 hp1. Step grid hp = Inr (g1, hp1) \<and> life_ok g1 hp1
    \<and> Life.width g1 = Life.width grid \<and> Life.h g1 = Life.h grid
    \<and> s (hp1 ! a g1) = tabulate (Life.width grid) (Life.h grid) blinker_v"
    using assms(1)
  proof (rule Step_pattern)
    fix u w assume "0 \<le> u" "u < Life.width grid" "0 \<le> w" "w < Life.h grid"
    with assms show "next_cell (hp ! a grid) u w = blinker_v u w"
      by (intro next_cell_blinker_h) (simp_all add: ok)
  qed
  then obtain g1 hp1 where st1: "Step grid hp = Inr (g1, hp1)" and lok1: "life_ok g1 hp1"
    and d1: "Life.width g1 = Life.width grid" "Life.h g1 = Life.h grid"
    and tab1: "s (hp1 ! a g1) = tabulate (Life.width grid) (Life.h grid) blinker_v"
    by blast
  note ok1 = life_ok_current [OF lok1]
  have "\<exists>g2 hp2. Step g1 hp1 = Inr (g2, hp2) \<and> life_ok g2 hp2
    \<and> Life.width g2 = Life.width g1 \<and> Life.h g2 = Life.h g1
    \<and> s (hp2 ! a g2) = tabulate (Life.width g1) (Life.h g1) blinker_h"
    using lok1
  proof (rule Step_pattern)
    fix u w assume "0 \<le> u" "u < Life.width g1" "0 \<le> w" "w < Life.h g1"
    with assms tab1 show "next_cell (hp1 ! a g1) u w = blinker_h u w"
      by (intro next_cell_blinker_v) (simp_all add: ok1 d1)
  qed
  then obtain g2 hp2 where st2: "Step g1 hp1 = Inr (g2, hp2)"
    and tab2: "s (hp2 ! a g2) = tabulate (Life.width grid) (Life.h grid) blinker_h"
    by (auto simp: d1)
  from st1 tab1 st2 tab2 assms(4) show ?thesis by simp
qed

lemma blinker_life_ok: "life_ok blinker_life blinker_heap"
  by (simp add: life_ok_def blinker_life_def blinker_heap_def tabulate_ok max_int_def)

text \<open>The blinker in a game of five by five cells.\<close>

theorem blinker_oscillates_witness:
  "life_ok blinker_life blinker_heap \<and> 5 \<le> Life.width blinker_life \<and> 5 \<le> Life.h blinker_life
   \<and> s (blinker_heap ! a blinker_life) = tabulate 5 5 blinker_h
   \<and> (\<exists>g1 hp1 g2 hp2. Step blinker_life blinker_heap = Inr (g1, hp1)
        \<and> s (hp1 ! a g1) = tabulate 5 5 blinker_v
        \<and> Step g1 hp1 = Inr (g2, hp2)
        \<and> s (hp2 ! a g2) = tabulate 5 5 blinker_h)"
proof -
  have ok: "life_ok blinker_life blinker_heap" by (rule blinker_life_ok)
  have d: "Life.width blinker_life = 5" "Life.h blinker_life = 5"
    by (simp_all add: blinker_life_def)
  have tab: "s (blinker_heap ! a blinker_life) =
      tabulate (Life.width blinker_life) (Life.h blinker_life) blinker_h"
    by (simp add: blinker_heap_def blinker_life_def)
  from blinker_oscillates [OF ok _ _ tab]
  have "\<exists>g1 hp1 g2 hp2. Step blinker_life blinker_heap = Inr (g1, hp1)
        \<and> s (hp1 ! a g1) = tabulate 5 5 blinker_v
        \<and> Step g1 hp1 = Inr (g2, hp2)
        \<and> s (hp2 ! a g2) = tabulate 5 5 blinker_h"
    by (simp add: d) blast
  with ok tab show ?thesis by (simp add: d)
qed

text \<open>
  Claim C2. In every well-formed game state \<^verbatim>\<open>Step\<close> returns without a panic. Every cell
  \<open>(x, y)\<close> of the field that was the scratch field then holds the value that \<^verbatim>\<open>Next\<close>
  computes at \<open>(x, y)\<close> on the current field of the state before the call. The two
  pointers of the game are exchanged and its dimensions kept; the store keeps its length,
  and every field other than the former scratch field, the former current field among
  them, is the same value at the same address: no cell is copied.
\<close>

theorem Step_synchronous_update:
  assumes "life_ok grid hp"
  shows "\<exists>grid' hp'. Step grid hp = Inr (grid', hp')
    \<and> (\<forall>x y. 0 \<le> x \<and> x < Life.width grid \<and> 0 \<le> y \<and> y < Life.h grid \<longrightarrow>
          Next (hp ! a grid) x y = Inr (cell (hp' ! b grid) x y))
    \<and> a grid' = b grid \<and> b grid' = a grid
    \<and> Life.width grid' = Life.width grid \<and> Life.h grid' = Life.h grid
    \<and> length hp' = length hp
    \<and> (\<forall>p. p < length hp \<and> p \<noteq> b grid \<longrightarrow> hp' ! p = hp ! p)
    \<and> hp' ! a grid = hp ! a grid
    \<and> Field.width (hp' ! b grid) = Life.width grid \<and> Field.h (hp' ! b grid) = Life.h grid"
proof -
  let ?fa = "hp ! a grid"
  let ?rows = "tabulate (Life.width grid) (Life.h grid) (next_cell ?fa)"
  let ?g = "grid\<lparr>a := b grid, b := a grid\<rparr>"
  let ?hp = "hp[b grid := (hp ! b grid)\<lparr>s := ?rows\<rparr>]"
  note ok = life_ok_current [OF assms]
  from assms have pb: "b grid < length hp" and ne: "a grid \<noteq> b grid"
    and wb: "Field.width (hp ! b grid) = Life.width grid"
    and hb: "Field.h (hp ! b grid) = Life.h grid"
    by (simp_all add: life_ok_def)
  have st: "Step grid hp = Inr (?g, ?hp)" using assms by (rule Step_result)
  have "Next ?fa x y = Inr (cell (?hp ! b grid) x y)"
    if r: "0 \<le> x \<and> x < Life.width grid \<and> 0 \<le> y \<and> y < Life.h grid" for x y
  proof -
    have "Next ?fa x y = Inr (next_cell ?fa x y)"
      using r by (intro Next_next_cell) (simp_all add: ok)
    moreover have "cell (?hp ! b grid) x y = next_cell ?fa x y"
      using r pb by (intro cell_tabulate [where wd = "Life.width grid" and ht = "Life.h grid"]) simp_all
    ultimately show ?thesis by simp
  qed
  moreover have "\<forall>p. p < length hp \<and> p \<noteq> b grid \<longrightarrow> ?hp ! p = hp ! p" by simp
  moreover have "?hp ! a grid = hp ! a grid" using ne by simp
  moreover have "Field.width (?hp ! b grid) = Life.width grid" "Field.h (?hp ! b grid) = Life.h grid"
    using pb wb hb by simp_all
  ultimately show ?thesis using st by simp
qed

text \<open>
  One generation of the blinker game: the call returns, and the vertical blinker is
  written into the former scratch field at address \<open>1\<close>.
\<close>

theorem Step_synchronous_update_witness:
  "life_ok blinker_life blinker_heap
   \<and> (\<exists>grid' hp'. Step blinker_life blinker_heap = Inr (grid', hp')
        \<and> Next (blinker_heap ! 0) 2 1 = Inr (cell (hp' ! 1) 2 1)
        \<and> a grid' = 1 \<and> b grid' = 0 \<and> hp' ! 0 = blinker_heap ! 0)"
proof -
  have ok: "life_ok blinker_life blinker_heap" by (rule blinker_life_ok)
  have d: "Life.width blinker_life = 5" "Life.h blinker_life = 5"
    "a blinker_life = 0" "b blinker_life = 1"
    by (simp_all add: blinker_life_def)
  from Step_synchronous_update [OF ok] obtain grid' hp' where
    st: "Step blinker_life blinker_heap = Inr (grid', hp')"
    and cells: "\<forall>x y. 0 \<le> x \<and> x < 5 \<and> 0 \<le> y \<and> y < 5 \<longrightarrow>
          Next (blinker_heap ! 0) x y = Inr (cell (hp' ! 1) x y)"
    and rest: "a grid' = 1" "b grid' = 0" "hp' ! 0 = blinker_heap ! 0"
    unfolding d by blast
  from cells have "Next (blinker_heap ! 0) 2 1 = Inr (cell (hp' ! 1) 2 1)" by simp
  with ok st rest show ?thesis by simp
qed

section \<open>Rendering\<close>

lemma String_x_result:
  assumes "life_ok grid hp" and "0 \<le> y" and "y < Life.h grid" and "0 \<le> x"
  shows "String_x grid hp y x buf =
    Inr (buf @ map (\<lambda>u. glyph (cell (hp ! a grid) (int u) y)) [nat x..<nat (Life.width grid)])"
  using assms
proof (induction grid hp y x buf rule: String_x.induct)
  case (1 grid hp y x buf)
  let ?fa = "hp ! a grid"
  note ok = life_ok_current [OF "1.prems"(1)]
  from "1.prems"(1) have pa: "a grid < length hp" by (simp add: life_ok_def)
  have da: "deref hp (a grid) = Inr ?fa" using pa by (simp add: deref_def)
  show ?case
  proof (cases "x < Life.width grid")
    case False
    then have e: "[nat x..<nat (Life.width grid)] = []" by simp
    have "String_x grid hp y x buf = Inr buf"
      using False by (subst String_x.simps) simp
    then show ?thesis by (simp add: e)
  next
    case True
    have al: "Alive ?fa x y = Inr (cell ?fa x y)"
      using "1.prems" True by (intro Alive_in) (simp_all add: ok)
    have unfold: "String_x grid hp y x buf =
        String_x grid hp y (x + 1) (buf @ [if cell ?fa x y then CHR ''*'' else CHR '' ''])"
      using True by (subst String_x.simps) (simp add: da al)
    have upt: "[nat x..<nat (Life.width grid)] = nat x # [nat (x + 1)..<nat (Life.width grid)]"
      using True "1.prems"(4) by (simp add: upt_conv_Cons nat_add_distrib)
    from "1.IH" [OF True da al "1.prems"(1,2,3)] "1.prems"(4)
    have "String_x grid hp y (x + 1) (buf @ [if cell ?fa x y then CHR ''*'' else CHR '' '']) =
      Inr ((buf @ [if cell ?fa x y then CHR ''*'' else CHR '' '']) @
        map (\<lambda>u. glyph (cell ?fa (int u) y)) [nat (x + 1)..<nat (Life.width grid)])"
      by simp
    then show ?thesis
      unfolding unfold upt using "1.prems"(4) by (simp add: glyph_def)
  qed
qed

lemma String_y_result:
  assumes "life_ok grid hp" and "0 \<le> y"
  shows "String_y grid hp y buf =
    Inr (buf @ concat (map (\<lambda>w. map (\<lambda>u. glyph (cell (hp ! a grid) (int u) (int w)))
                                   [0..<nat (Life.width grid)] @ [CHR 0x0A])
                         [nat y..<nat (Life.h grid)]))"
  using assms
proof (induction grid hp y buf rule: String_y.induct)
  case (1 grid hp y buf)
  let ?line = "\<lambda>w. map (\<lambda>u. glyph (cell (hp ! a grid) (int u) w)) [0..<nat (Life.width grid)]"
  show ?case
  proof (cases "y < Life.h grid")
    case False
    then have e: "[nat y..<nat (Life.h grid)] = []" by simp
    have "String_y grid hp y buf = Inr buf"
      using False by (subst String_y.simps) simp
    then show ?thesis by (simp add: e)
  next
    case True
    have row: "String_x grid hp y 0 buf = Inr (buf @ ?line y)"
      using String_x_result [OF "1.prems"(1,2) True, of 0 buf] by simp
    have unfold: "String_y grid hp y buf = String_y grid hp (y + 1) ((buf @ ?line y) @ [CHR 0x0A])"
      using True by (subst String_y.simps) (simp add: row)
    have upt: "[nat y..<nat (Life.h grid)] = nat y # [nat (y + 1)..<nat (Life.h grid)]"
      using True "1.prems"(2) by (simp add: upt_conv_Cons nat_add_distrib)
    from "1.IH" [OF True row "1.prems"(1)] "1.prems"(2)
    have "String_y grid hp (y + 1) ((buf @ ?line y) @ [CHR 0x0A]) =
      Inr (((buf @ ?line y) @ [CHR 0x0A]) @
        concat (map (\<lambda>w. ?line (int w) @ [CHR 0x0A]) [nat (y + 1)..<nat (Life.h grid)]))"
      by simp
    then show ?thesis
      unfolding unfold upt using "1.prems"(2) by simp
  qed
qed

lemma render_lines_tabulate:
  assumes ok: "field_ok f"
  shows "render_lines f =
    map (\<lambda>w. map (\<lambda>u. glyph (cell f (int u) (int w))) [0..<nat (Field.width f)])
      [0..<nat (Field.h f)]"
proof -
  have "s f = tabulate (Field.width f) (Field.h f) (cell f)"
    using ok by (rule tabulate_eq) simp
  then have "render_lines f = map (map glyph) (tabulate (Field.width f) (Field.h f) (cell f))"
    by (simp add: render_lines_def)
  then show ?thesis by (simp add: tabulate_def comp_def)
qed

lemma String_render:
  assumes ok: "life_ok grid hp"
  shows "String grid hp = Inr (render (hp ! a grid))"
proof -
  note c = life_ok_current [OF ok]
  show ?thesis
    using String_y_result [OF ok, of 0 "[]"]
    by (simp add: String_def render_def render_lines_tabulate [OF c(1)] c comp_def)
qed


text \<open>
  Claim C7. In every well-formed game state \<^verbatim>\<open>String\<close> returns without a panic. Its
  text is the lines of the current field in row order, each followed by a newline; there
  are exactly \<open>h\<close> lines, each of exactly \<open>width\<close> characters, every character \<open>*\<close>
  or a space; the character in column \<open>x\<close> of line \<open>y\<close> is \<open>*\<close> when the cell
  \<open>(x, y)\<close> is alive and a space when it is dead. The text depends on the cells of the
  current field only: two well-formed states whose current fields hold the same rows
  render to the same text.
\<close>

theorem String_renders_current_field:
  assumes "life_ok grid hp"
  shows "String grid hp = Inr (concat (map (\<lambda>l. l @ [CHR 0x0A]) (render_lines (hp ! a grid))))
    \<and> length (render_lines (hp ! a grid)) = nat (Life.h grid)
    \<and> (\<forall>l \<in> set (render_lines (hp ! a grid)).
          length l = nat (Life.width grid) \<and> set l \<subseteq> {CHR ''*'', CHR '' ''})
    \<and> (\<forall>x y. 0 \<le> x \<and> x < Life.width grid \<and> 0 \<le> y \<and> y < Life.h grid \<longrightarrow>
          render_lines (hp ! a grid) ! nat y ! nat x =
            (if cell (hp ! a grid) x y then CHR ''*'' else CHR '' ''))
    \<and> (\<forall>grid2 hp2. life_ok grid2 hp2 \<and> s (hp2 ! a grid2) = s (hp ! a grid) \<longrightarrow>
          String grid2 hp2 = String grid hp)"
proof -
  let ?fa = "hp ! a grid"
  note c = life_ok_current [OF assms]
  from c(1) have len: "length (s ?fa) = nat (Field.h ?fa)"
    and rows: "list_all (\<lambda>row. length row = nat (Field.width ?fa)) (s ?fa)"
    by (simp_all add: field_ok_def)
  have 1: "String grid hp = Inr (concat (map (\<lambda>l. l @ [CHR 0x0A]) (render_lines ?fa)))"
    using String_render [OF assms] by (simp add: render_def)
  have 2: "length (render_lines ?fa) = nat (Life.h grid)"
    using len by (simp add: render_lines_def c)
  have 3: "\<forall>l \<in> set (render_lines ?fa).
      length l = nat (Life.width grid) \<and> set l \<subseteq> {CHR ''*'', CHR '' ''}"
    using rows by (auto simp: render_lines_def list_all_iff c glyph_def)
  have 4: "render_lines ?fa ! nat y ! nat x = (if cell ?fa x y then CHR ''*'' else CHR '' '')"
    if r: "0 \<le> x \<and> x < Life.width grid \<and> 0 \<le> y \<and> y < Life.h grid" for x y
  proof -
    have "length (s ?fa ! nat y) = nat (Field.width ?fa)"
      using c r by (intro field_ok_row) simp_all
    then show ?thesis
      using r len by (simp add: render_lines_def c cell_def glyph_def)
  qed
  have 5: "String grid2 hp2 = String grid hp"
    if "life_ok grid2 hp2 \<and> s (hp2 ! a grid2) = s ?fa" for grid2 hp2
    using that String_render [of grid2 hp2] String_render [OF assms]
    by (simp add: render_def render_lines_def)
  from 1 2 3 4 5 show ?thesis by blast
qed

text \<open>The horizontal blinker of the game of five by five cells, rendered.\<close>

theorem String_renders_current_field_witness:
  "life_ok blinker_life blinker_heap
   \<and> String blinker_life blinker_heap =
       Inr (''     '' @ [CHR 0x0A] @ ''     '' @ [CHR 0x0A] @ '' *** '' @ [CHR 0x0A] @
            ''     '' @ [CHR 0x0A] @ ''     '' @ [CHR 0x0A])"
proof -
  have ok: "life_ok blinker_life blinker_heap" by (rule blinker_life_ok)
  have five: "[0..<5] = [0, 1, 2, 3, 4::nat]" by (simp add: upt_rec)
  have l: "render_lines (blinker_heap ! a blinker_life) =
      [''     '', ''     '', '' *** '', ''     '', ''     '']"
    by (simp add: render_lines_def blinker_heap_def blinker_life_def tabulate_def five
        blinker_h_def glyph_def)
  from String_renders_current_field [OF ok] show ?thesis
    using ok by (simp add: l)
qed

section \<open>Construction\<close>

lemma NewField_rows_result:
  assumes "0 \<le> wd" and "i \<le> length rows"
  shows "NewField_rows rows i wd =
    Inr (take i rows @ replicate (length rows - i) (replicate (nat wd) False))"
  using assms
proof (induction rows i wd rule: NewField_rows.induct)
  case (1 rows i wd)
  let ?r = "replicate (nat wd) False"
  have mk: "make_slice wd False = Inr ?r" using "1.prems"(1) by (simp add: make_slice_def)
  show ?case
  proof (cases "i < length rows")
    case False
    with "1.prems"(2) have "i = length rows" by simp
    then show ?thesis by (subst NewField_rows.simps) simp
  next
    case True
    have unfold: "NewField_rows rows i wd = NewField_rows (rows[i := ?r]) (Suc i) wd"
      using True by (subst NewField_rows.simps) (simp add: mk)
    have "NewField_rows (rows[i := ?r]) (Suc i) wd =
        Inr (take (Suc i) (rows[i := ?r]) @ replicate (length (rows[i := ?r]) - Suc i) ?r)"
      using True "1.prems"(1) by (intro "1.IH" [OF True mk]) simp_all
    moreover have "take (Suc i) (rows[i := ?r]) = take i rows @ [?r]"
      using True by (simp add: take_Suc_conv_app_nth)
    moreover have "replicate (length rows - i) ?r = ?r # replicate (length rows - Suc i) ?r"
      using True by (simp add: Suc_diff_Suc flip: replicate_Suc)
    ultimately show ?thesis by (simp add: unfold)
  qed
qed

lemma NewField_result:
  assumes "0 \<le> wd" and "0 \<le> ht"
  shows "NewField wd ht hp =
    Inr (length hp, hp @ [\<lparr>s = replicate (nat ht) (replicate (nat wd) False), width = wd, h = ht\<rparr>])"
proof -
  have mk: "make_slice ht ([] :: bool list) = Inr (replicate (nat ht) [])"
    using assms(2) by (simp add: make_slice_def)
  have "NewField_rows (replicate (nat ht) []) 0 wd =
      Inr (replicate (nat ht) (replicate (nat wd) False))"
    using NewField_rows_result [OF assms(1), of 0 "replicate (nat ht) []"] by simp
  then show ?thesis by (simp add: NewField_def mk)
qed

lemma replicate_tabulate: "replicate (nat ht) (replicate (nat wd) False) = tabulate wd ht dead"
  by (simp add: tabulate_def dead_def map_replicate_const)

lemma filter_update_le:
  "length (filter (\<lambda>v. v) (row[k := True])) \<le> Suc (length (filter (\<lambda>v. v) row))"
proof (induction row arbitrary: k)
  case Nil
  then show ?case by simp
next
  case (Cons v row)
  then show ?case by (cases k) (auto intro: le_SucI)
qed

lemma sum_list_update_le:
  fixes g :: "'a \<Rightarrow> nat"
  assumes "g v \<le> Suc (g (xs ! k))"
  shows "sum_list (map g (xs[k := v])) \<le> Suc (sum_list (map g xs))"
  using assms
proof (induction xs arbitrary: k)
  case Nil
  then show ?case by simp
next
  case (Cons x xs)
  show ?case
  proof (cases k)
    case 0
    with Cons.prems show ?thesis by simp
  next
    case (Suc m)
    with Cons.prems have "g v \<le> Suc (g (xs ! m))" by simp
    from Cons.IH [OF this] Suc show ?thesis by simp
  qed
qed

lemma live_count_update:
  "live_count (f\<lparr>s := (s f)[k := (s f ! k)[m := True]]\<rparr>) \<le> Suc (live_count f)"
  unfolding live_count_def
  by (simp add: sum_list_update_le filter_update_le)


lemma Intn_ok: "0 < n \<Longrightarrow> Intn n r = Inr (r 0 mod n, \<lambda>k. r (Suc k))"
  by (simp add: Intn_def)

lemma NewLife_loop_result:
  assumes "pa < length hp" and "field_ok (hp ! pa)"
    and "Field.width (hp ! pa) = wd" and "Field.h (hp ! pa) = ht"
  shows "\<exists>rows.
      NewLife_loop wd ht pa i hp r =
        Inr (hp[pa := (hp ! pa)\<lparr>s := rows\<rparr>], \<lambda>k. r (k + 2 * nat (mul64 wd ht sdiv 4 - i)))
    \<and> field_ok ((hp ! pa)\<lparr>s := rows\<rparr>)
    \<and> live_count ((hp ! pa)\<lparr>s := rows\<rparr>) \<le> live_count (hp ! pa) + nat (mul64 wd ht sdiv 4 - i)
    \<and> (\<forall>u w. 0 \<le> u \<longrightarrow> u < wd \<longrightarrow> 0 \<le> w \<longrightarrow> w < ht \<longrightarrow>
          cell ((hp ! pa)\<lparr>s := rows\<rparr>) u w =
            (cell (hp ! pa) u w \<or>
             (\<exists>k < nat (mul64 wd ht sdiv 4 - i). u = r (2 * k) mod wd \<and> w = r (2 * k + 1) mod ht)))"
  using assms
proof (induction wd ht pa i hp r rule: NewLife_loop.induct)
  case (1 wd ht pa i hp r)
  let ?n = "mul64 wd ht sdiv 4"
  let ?fa = "hp ! pa"
  note pa = "1.prems"(1) and ok = "1.prems"(2) and wa = "1.prems"(3) and ha = "1.prems"(4)
  from ok wa ha have W: "0 < wd" and H: "0 < ht" by (simp_all add: field_ok_def)
  show ?case
  proof (cases "i < ?n")
    case False
    have "NewLife_loop wd ht pa i hp r = Inr (hp, r)"
      using False by (subst NewLife_loop.simps) simp
    moreover have "nat (?n - i) = 0" using False by simp
    moreover have "hp[pa := ?fa\<lparr>s := s ?fa\<rparr>] = hp" by simp
    moreover have "field_ok (?fa\<lparr>s := s ?fa\<rparr>)" using ok by simp
    ultimately show ?thesis
      by (intro exI [of _ "s ?fa"]) simp
  next
    case True
    let ?x = "r 0 mod wd" and ?y = "r (Suc 0) mod ht"
    let ?r1 = "\<lambda>k. r (Suc k)" and ?r2 = "\<lambda>k. r (Suc (Suc k))"
    let ?f1 = "?fa\<lparr>s := (s ?fa)[nat ?y := (s ?fa ! nat ?y)[nat ?x := True]]\<rparr>"
    let ?hp1 = "hp[pa := ?f1]"
    let ?m = "nat (?n - (i + 1))"
    have x: "0 \<le> ?x" "?x < Field.width ?fa" using W wa by simp_all
    have y: "0 \<le> ?y" "?y < Field.h ?fa" using H ha by simp_all
    have ix: "Intn wd r = Inr (?x, ?r1)" using W by (rule Intn_ok)
    have iy: "Intn ht ?r1 = Inr (?y, ?r2)" using Intn_ok [OF H, of ?r1] by simp
    have da: "deref hp pa = Inr ?fa" using pa by (simp add: deref_def)
    have st: "Set ?fa ?x ?y True = Inr ?f1" using ok x y by (rule Set_ok)
    have ok1: "field_ok ?f1" using ok y by (rule field_ok_update)
    have unfold: "NewLife_loop wd ht pa i hp r = NewLife_loop wd ht pa (i + 1) ?hp1 ?r2"
      using True by (subst NewLife_loop.simps) (simp add: ix iy da st)
    have f1: "?hp1 ! pa = ?f1" using pa by simp
    have suc: "nat (?n - i) = Suc ?m" using True by simp
    have "\<exists>rows.
      NewLife_loop wd ht pa (i + 1) ?hp1 ?r2 =
        Inr (?hp1[pa := (?hp1 ! pa)\<lparr>s := rows\<rparr>], \<lambda>k. ?r2 (k + 2 * ?m))
      \<and> field_ok ((?hp1 ! pa)\<lparr>s := rows\<rparr>)
      \<and> live_count ((?hp1 ! pa)\<lparr>s := rows\<rparr>) \<le> live_count (?hp1 ! pa) + ?m
      \<and> (\<forall>u w. 0 \<le> u \<longrightarrow> u < wd \<longrightarrow> 0 \<le> w \<longrightarrow> w < ht \<longrightarrow>
            cell ((?hp1 ! pa)\<lparr>s := rows\<rparr>) u w =
              (cell (?hp1 ! pa) u w \<or>
               (\<exists>k < ?m. u = ?r2 (2 * k) mod wd \<and> w = ?r2 (2 * k + 1) mod ht)))"
    proof (rule "1.IH" [OF True ix refl iy refl da st])
      show "pa < length ?hp1" using pa by simp
      show "field_ok (?hp1 ! pa)" using ok1 by (simp only: f1)
      show "Field.width (?hp1 ! pa) = wd" "Field.h (?hp1 ! pa) = ht"
        using wa ha by (simp_all add: f1)
    qed
    then obtain rows where
      run: "NewLife_loop wd ht pa (i + 1) ?hp1 ?r2 =
        Inr (?hp1[pa := ?f1\<lparr>s := rows\<rparr>], \<lambda>k. ?r2 (k + 2 * ?m))"
      and okr: "field_ok (?f1\<lparr>s := rows\<rparr>)"
      and cnt: "live_count (?f1\<lparr>s := rows\<rparr>) \<le> live_count ?f1 + ?m"
      and cells: "\<And>u w. 0 \<le> u \<Longrightarrow> u < wd \<Longrightarrow> 0 \<le> w \<Longrightarrow> w < ht \<Longrightarrow>
            cell (?f1\<lparr>s := rows\<rparr>) u w =
              (cell ?f1 u w \<or> (\<exists>k < ?m. u = ?r2 (2 * k) mod wd \<and> w = ?r2 (2 * k + 1) mod ht))"
      unfolding f1 by blast
    have res: "NewLife_loop wd ht pa i hp r =
        Inr (hp[pa := ?fa\<lparr>s := rows\<rparr>], \<lambda>k. r (k + 2 * nat (?n - i)))"
      using run by (simp add: unfold suc)
    have okr': "field_ok (?fa\<lparr>s := rows\<rparr>)" using okr by simp
    have cnt': "live_count (?fa\<lparr>s := rows\<rparr>) \<le> live_count ?fa + nat (?n - i)"
      using cnt live_count_update [of ?fa "nat ?y" "nat ?x"] by (simp add: suc)
    have "cell (?fa\<lparr>s := rows\<rparr>) u w =
        (cell ?fa u w \<or> (\<exists>k < nat (?n - i). u = r (2 * k) mod wd \<and> w = r (2 * k + 1) mod ht))"
      if u: "0 \<le> u" "u < wd" and w: "0 \<le> w" "w < ht" for u w
    proof -
      have c1: "cell ?f1 u w = (if u = ?x \<and> w = ?y then True else cell ?fa u w)"
        using ok x y u w by (intro cell_update) (simp_all add: wa ha)
      from cells [OF u w] have "cell (?fa\<lparr>s := rows\<rparr>) u w =
          (cell ?f1 u w \<or> (\<exists>k < ?m. u = r (2 * Suc k) mod wd \<and> w = r (2 * Suc k + 1) mod ht))"
        by simp
      then show ?thesis
        unfolding c1 suc Ex_less_Suc2 by auto
    qed
    with res okr' cnt' show ?thesis by blast
  qed
qed


lemma live_count_dead: "live_count \<lparr>s = tabulate wd ht dead, width = wd, h = ht\<rparr> = 0"
  by (simp add: live_count_def tabulate_def dead_def comp_def)

lemma sdiv_pos: "0 \<le> u \<Longrightarrow> u sdiv 4 = u div 4" for u :: int
  by (cases "u = 0") (simp_all add: signed_divide_int_def)

lemma NewLife_result:
  assumes W: "0 < wd" and H: "0 < ht" and W2: "2 * wd \<le> max_int" and H2: "2 * ht \<le> max_int"
    and WH: "wd * ht \<le> max_int"
  shows "\<exists>rows.
      NewLife wd ht hp r =
        Inr (\<lparr>a = length hp, b = Suc (length hp), width = wd, h = ht\<rparr>,
             hp @ [\<lparr>s = rows, width = wd, h = ht\<rparr>,
                   \<lparr>s = tabulate wd ht dead, width = wd, h = ht\<rparr>],
             \<lambda>k. r (k + 2 * nat (wd * ht div 4)))
    \<and> field_ok \<lparr>s = rows, width = wd, h = ht\<rparr>
    \<and> live_count \<lparr>s = rows, width = wd, h = ht\<rparr> \<le> nat (wd * ht div 4)
    \<and> (\<forall>u w. 0 \<le> u \<longrightarrow> u < wd \<longrightarrow> 0 \<le> w \<longrightarrow> w < ht \<longrightarrow>
          cell \<lparr>s = rows, width = wd, h = ht\<rparr> u w =
            (\<exists>k < nat (wd * ht div 4). u = r (2 * k) mod wd \<and> w = r (2 * k + 1) mod ht))"
proof -
  let ?f0 = "\<lparr>s = tabulate wd ht dead, width = wd, h = ht\<rparr>"
  let ?hp1 = "hp @ [?f0]"
  let ?pa = "length hp"
  have ok0: "field_ok ?f0" using W H W2 H2 by (rule tabulate_ok)
  have nf: "NewField wd ht hp' = Inr (length hp', hp' @ [?f0])" for hp'
    using W H by (simp add: NewField_result replicate_tabulate)
  have "0 \<le> wd * ht" using W H by simp
  with WH have "int64 (wd * ht)" by (simp add: int64_def min_int_def)
  then have "mul64 wd ht = wd * ht" by (simp add: mul64_def wrap64_id)
  with \<open>0 \<le> wd * ht\<close> have n: "mul64 wd ht sdiv 4 = wd * ht div 4" by (simp add: sdiv_pos)
  have at: "?hp1 ! ?pa = ?f0" by simp
  from NewLife_loop_result [of ?pa ?hp1 wd ht 0 r]
  obtain rows where
    run: "NewLife_loop wd ht ?pa 0 ?hp1 r =
      Inr (?hp1[?pa := ?f0\<lparr>s := rows\<rparr>], \<lambda>k. r (k + 2 * nat (wd * ht div 4)))"
    and okr: "field_ok (?f0\<lparr>s := rows\<rparr>)"
    and cnt: "live_count (?f0\<lparr>s := rows\<rparr>) \<le> live_count ?f0 + nat (wd * ht div 4)"
    and cells: "\<And>u w. 0 \<le> u \<Longrightarrow> u < wd \<Longrightarrow> 0 \<le> w \<Longrightarrow> w < ht \<Longrightarrow>
          cell (?f0\<lparr>s := rows\<rparr>) u w =
            (cell ?f0 u w \<or>
             (\<exists>k < nat (wd * ht div 4). u = r (2 * k) mod wd \<and> w = r (2 * k + 1) mod ht))"
    unfolding at n using ok0 by auto
  let ?fa = "\<lparr>s = rows, width = wd, h = ht\<rparr>"
  have fa: "?f0\<lparr>s := rows\<rparr> = ?fa" by simp
  have hp2: "?hp1[?pa := ?fa] = hp @ [?fa]" by simp
  have res: "NewLife wd ht hp r =
      Inr (\<lparr>a = ?pa, b = Suc ?pa, width = wd, h = ht\<rparr>, hp @ [?fa, ?f0],
           \<lambda>k. r (k + 2 * nat (wd * ht div 4)))"
    using run unfolding fa hp2 by (simp add: NewLife_def nf)
  have cnt': "live_count ?fa \<le> nat (wd * ht div 4)"
    using cnt unfolding fa by (simp add: live_count_dead)
  have "cell ?fa u w = (\<exists>k < nat (wd * ht div 4). u = r (2 * k) mod wd \<and> w = r (2 * k + 1) mod ht)"
    if u: "0 \<le> u" "u < wd" and w: "0 \<le> w" "w < ht" for u w
  proof -
    have "cell ?f0 u w = dead u w" using u w by (intro cell_tabulate) simp_all
    then have "\<not> cell ?f0 u w" by (simp add: dead_def)
    with cells [OF u w] show ?thesis unfolding fa by simp
  qed
  with res okr cnt' show ?thesis unfolding fa by blast
qed


text \<open>
  Claim C8. For positive dimensions that fit in memory (twice each dimension and their
  product are within \<^verbatim>\<open>int\<close>), \<^verbatim>\<open>NewLife\<close> returns without a panic. It allocates
  two new fields of the given dimensions after the fields already in the store, which
  stay as they were. It draws exactly \<open>2 * (width * h div 4)\<close> numbers from the random
  source, a column and a row for each of the \<open>width * h div 4\<close> placements; a cell of
  the current field is alive exactly when one of the placements chose it, so a cell drawn
  twice counts once and the number of live cells is at most \<open>width * h div 4\<close>. The
  scratch field is entirely dead.
\<close>

theorem NewLife_seeds_quarter:
  assumes "0 < wd" and "0 < ht" and "2 * wd \<le> max_int" and "2 * ht \<le> max_int"
    and "wd * ht \<le> max_int"
  shows "\<exists>grid hp'.
      NewLife wd ht hp r = Inr (grid, hp', \<lambda>k. r (k + 2 * nat (wd * ht div 4)))
    \<and> a grid = length hp \<and> b grid = Suc (length hp)
    \<and> Life.width grid = wd \<and> Life.h grid = ht
    \<and> length hp' = length hp + 2 \<and> take (length hp) hp' = hp
    \<and> life_ok grid hp'
    \<and> (\<forall>x y. 0 \<le> x \<and> x < wd \<and> 0 \<le> y \<and> y < ht \<longrightarrow>
          cell (hp' ! a grid) x y =
            (\<exists>k < nat (wd * ht div 4). x = r (2 * k) mod wd \<and> y = r (2 * k + 1) mod ht))
    \<and> live_count (hp' ! a grid) \<le> nat (wd * ht div 4)
    \<and> s (hp' ! b grid) = tabulate wd ht dead
    \<and> live_count (hp' ! b grid) = 0"
proof -
  let ?f0 = "\<lparr>s = tabulate wd ht dead, width = wd, h = ht\<rparr>"
  from NewLife_result [OF assms, of hp r] obtain rows where
    res: "NewLife wd ht hp r =
        Inr (\<lparr>a = length hp, b = Suc (length hp), width = wd, h = ht\<rparr>,
             hp @ [\<lparr>s = rows, width = wd, h = ht\<rparr>, ?f0],
             \<lambda>k. r (k + 2 * nat (wd * ht div 4)))"
    and ok: "field_ok \<lparr>s = rows, width = wd, h = ht\<rparr>"
    and cnt: "live_count \<lparr>s = rows, width = wd, h = ht\<rparr> \<le> nat (wd * ht div 4)"
    and cells: "\<forall>u w. 0 \<le> u \<longrightarrow> u < wd \<longrightarrow> 0 \<le> w \<longrightarrow> w < ht \<longrightarrow>
          cell \<lparr>s = rows, width = wd, h = ht\<rparr> u w =
            (\<exists>k < nat (wd * ht div 4). u = r (2 * k) mod wd \<and> w = r (2 * k + 1) mod ht)"
    by blast
  let ?grid = "\<lparr>a = length hp, b = Suc (length hp), width = wd, h = ht\<rparr>"
  let ?hp = "hp @ [\<lparr>s = rows, width = wd, h = ht\<rparr>, ?f0]"
  have ok0: "field_ok ?f0" using assms(1-4) by (rule tabulate_ok)
  have at: "?hp ! length hp = \<lparr>s = rows, width = wd, h = ht\<rparr>" "?hp ! Suc (length hp) = ?f0"
    by (simp_all add: nth_append)
  have lok: "life_ok ?grid ?hp"
    using ok ok0 by (simp add: life_ok_def at)
  show ?thesis
    using res lok cnt cells by (simp add: at live_count_dead)
qed

text \<open>
  A game of four by four cells seeded from the source \<open>0, 1, 2, ...\<close>: four placements
  that choose the cells \<open>(0, 1)\<close>, \<open>(2, 3)\<close>, \<open>(0, 1)\<close> and \<open>(2, 3)\<close>.
\<close>

theorem NewLife_seeds_quarter_witness:
  "(0::int) < 4 \<and> 2 * (4::int) \<le> max_int \<and> (4::int) * 4 \<le> max_int
   \<and> (\<exists>grid hp'. NewLife 4 4 [] counting = Inr (grid, hp', \<lambda>k. counting (k + 8))
        \<and> life_ok grid hp'
        \<and> cell (hp' ! a grid) 0 1 \<and> cell (hp' ! a grid) 2 3 \<and> \<not> cell (hp' ! a grid) 1 1
        \<and> live_count (hp' ! a grid) \<le> 4
        \<and> s (hp' ! b grid) = tabulate 4 4 dead)"
proof -
  have m: "2 * (4::int) \<le> max_int" "(4::int) * 4 \<le> max_int" by (simp_all add: max_int_def)
  from NewLife_seeds_quarter [OF _ _ m(1) m(1) m(2), of "[]" counting]
  obtain grid hp' where
    res: "NewLife 4 4 [] counting = Inr (grid, hp', \<lambda>k. counting (k + 8))"
    and lok: "life_ok grid hp'"
    and cells: "\<forall>x y. 0 \<le> x \<and> x < 4 \<and> 0 \<le> y \<and> y < 4 \<longrightarrow>
          cell (hp' ! a grid) x y =
            (\<exists>k < 4. x = counting (2 * k) mod 4 \<and> y = counting (2 * k + 1) mod 4)"
    and cnt: "live_count (hp' ! a grid) \<le> 4"
    and dead: "s (hp' ! b grid) = tabulate 4 4 dead"
    by auto
  have four: "(\<exists>k<4. P k) \<longleftrightarrow> P 0 \<or> P 1 \<or> P 2 \<or> P (3::nat)" for P
  proof -
    have "{..<4} = {0, 1, 2, 3::nat}" by auto
    then have "(\<exists>k<4. P k) \<longleftrightarrow> (\<exists>k \<in> {0, 1, 2, 3::nat}. P k)" by (metis lessThan_iff)
    then show ?thesis by simp
  qed
  from cells have "cell (hp' ! a grid) 0 1" "cell (hp' ! a grid) 2 3" "\<not> cell (hp' ! a grid) 1 1"
    by (simp_all add: four counting_def)
  with m res lok cnt dead show ?thesis by auto
qed

section \<open>The invariant of a game\<close>

lemma life_ok_field:
  assumes "life_ok grid hp"
  shows "field_of grid cur < length hp" and "field_ok (hp ! field_of grid cur)"
    and "Field.width (hp ! field_of grid cur) = Life.width grid"
    and "Field.h (hp ! field_of grid cur) = Life.h grid"
  using assms by (simp_all add: life_ok_def field_of_def)

lemma life_ok_store:
  assumes ok: "life_ok grid hp" and f: "field_ok f'"
    and d: "Field.width f' = Life.width grid" "Field.h f' = Life.h grid"
  shows "life_ok grid (hp[field_of grid cur := f'])"
  using ok f d by (auto simp: life_ok_def field_of_def nth_list_update)

lemma apply_op_ok:
  assumes ok: "life_ok grid hp" and r: "op_in_range (Life.width grid) (Life.h grid) c"
  shows "\<exists>grid' hp'. apply_op c grid hp = Inr (grid', hp') \<and> life_ok grid' hp'
    \<and> Life.width grid' = Life.width grid \<and> Life.h grid' = Life.h grid
    \<and> {a grid', b grid'} = {a grid, b grid} \<and> length hp' = length hp"
proof (cases c)
  case DoStep
  have st: "Step grid hp = Inr (grid\<lparr>a := b grid, b := a grid\<rparr>,
      hp[b grid := (hp ! b grid)\<lparr>s := tabulate (Life.width grid) (Life.h grid)
                                          (next_cell (hp ! a grid))\<rparr>])"
    using ok by (rule Step_result)
  from Step_life_ok [OF ok st] st DoStep show ?thesis by auto
next
  case DoString
  with String_render [OF ok] ok show ?thesis by simp
next
  case (DoSet cur x y v)
  note f = life_ok_field [OF ok, of cur]
  let ?f = "hp ! field_of grid cur"
  let ?f' = "?f\<lparr>s := (s ?f)[nat y := (s ?f ! nat y)[nat x := v]]\<rparr>"
  from r DoSet have x: "0 \<le> x" "x < Field.width ?f" and y: "0 \<le> y" "y < Field.h ?f"
    by (simp_all add: f)
  have st: "Set ?f x y v = Inr ?f'" using f(2) x y by (rule Set_ok)
  have "field_ok ?f'" using f(2) y by (rule field_ok_update)
  then have "life_ok grid (hp[field_of grid cur := ?f'])"
    using ok by (intro life_ok_store) (simp_all add: f)
  with DoSet st f(1) show ?thesis by (simp add: deref_def)
next
  case (DoAlive cur x y)
  note f = life_ok_field [OF ok, of cur]
  from r DoAlive have "Alive (hp ! field_of grid cur) x y = Inr (cell (hp ! field_of grid cur) x y)"
    using f by (intro Alive_in) simp_all
  with DoAlive ok f(1) show ?thesis by (simp add: deref_def)
next
  case (DoNext cur x y)
  note f = life_ok_field [OF ok, of cur]
  from r DoNext have "Next (hp ! field_of grid cur) x y = Inr (next_cell (hp ! field_of grid cur) x y)"
    using f by (intro Next_next_cell) simp_all
  with DoNext ok f(1) show ?thesis by (simp add: deref_def)
qed

lemma run_ok:
  assumes "life_ok grid hp" and "list_all (op_in_range (Life.width grid) (Life.h grid)) cs"
  shows "\<exists>grid' hp'. run cs grid hp = Inr (grid', hp') \<and> life_ok grid' hp'
    \<and> Life.width grid' = Life.width grid \<and> Life.h grid' = Life.h grid
    \<and> {a grid', b grid'} = {a grid, b grid} \<and> length hp' = length hp"
  using assms
proof (induction cs arbitrary: grid hp)
  case Nil
  then show ?case by simp
next
  case (Cons c cs)
  from Cons.prems have r: "op_in_range (Life.width grid) (Life.h grid) c"
    and rs: "list_all (op_in_range (Life.width grid) (Life.h grid)) cs"
    by simp_all
  from apply_op_ok [OF Cons.prems(1) r] obtain g1 hp1 where
    1: "apply_op c grid hp = Inr (g1, hp1)" and ok1: "life_ok g1 hp1"
    and d1: "Life.width g1 = Life.width grid" "Life.h g1 = Life.h grid"
    and p1: "{a g1, b g1} = {a grid, b grid}" "length hp1 = length hp"
    by blast
  from Cons.IH [OF ok1] rs obtain g2 hp2 where
    2: "run cs g1 hp1 = Inr (g2, hp2)" and ok2: "life_ok g2 hp2"
    and d2: "Life.width g2 = Life.width g1" "Life.h g2 = Life.h g1"
    and p2: "{a g2, b g2} = {a g1, b g1}" "length hp2 = length hp1"
    unfolding d1 by blast
  from 1 2 ok2 d1 d2 p1 p2 show ?case by simp
qed

text \<open>
  Claim C9. Starting from the state that \<^verbatim>\<open>NewLife\<close> returns for positive dimensions
  that fit in memory, every sequence of the operations \<^verbatim>\<open>Step\<close>, \<^verbatim>\<open>String\<close> and
  \<^verbatim>\<open>Set\<close>, \<^verbatim>\<open>Alive\<close>, \<^verbatim>\<open>Next\<close> at coordinates inside the field runs without a panic,
  and in the state it reaches the game still records the dimensions of its construction,
  its two fields are the two fields allocated at construction, and each of them has those
  dimensions: \<open>h\<close> rows of \<open>width\<close> cells, so that \<^verbatim>\<open>Alive\<close> returns the stored
  boolean for every coordinate pair inside the field.
\<close>

theorem Life_dimensions_invariant:
  assumes "0 < wd" and "0 < ht" and "2 * wd \<le> max_int" and "2 * ht \<le> max_int"
    and "wd * ht \<le> max_int"
    and "NewLife wd ht hp0 r = Inr (grid, hp, r')"
    and "list_all (op_in_range wd ht) cs"
  shows "\<exists>grid' hp'. run cs grid hp = Inr (grid', hp')
    \<and> Life.width grid' = wd \<and> Life.h grid' = ht
    \<and> {a grid', b grid'} = {a grid, b grid} \<and> a grid' \<noteq> b grid'
    \<and> (\<forall>p \<in> {a grid', b grid'}.
          p < length hp'
        \<and> Field.width (hp' ! p) = wd \<and> Field.h (hp' ! p) = ht
        \<and> length (s (hp' ! p)) = nat ht
        \<and> (\<forall>row \<in> set (s (hp' ! p)). length row = nat wd)
        \<and> (\<forall>x y. 0 \<le> x \<and> x < wd \<and> 0 \<le> y \<and> y < ht \<longrightarrow>
              Alive (hp' ! p) x y = Inr (cell (hp' ! p) x y)))"
proof -
  from NewLife_result [OF assms(1-5), of hp0 r] assms(6)
  obtain rows where g: "grid = \<lparr>a = length hp0, b = Suc (length hp0), width = wd, h = ht\<rparr>"
    and h: "hp = hp0 @ [\<lparr>s = rows, width = wd, h = ht\<rparr>,
                       \<lparr>s = tabulate wd ht dead, width = wd, h = ht\<rparr>]"
    and okr: "field_ok \<lparr>s = rows, width = wd, h = ht\<rparr>"
    by auto
  have ok0: "field_ok \<lparr>s = tabulate wd ht dead, width = wd, h = ht\<rparr>"
    using assms(1-4) by (rule tabulate_ok)
  have lok: "life_ok grid hp"
    using okr ok0 unfolding g h by (simp add: life_ok_def nth_append)
  have d: "Life.width grid = wd" "Life.h grid = ht" unfolding g by simp_all
  from run_ok [OF lok, of cs] assms(7) obtain grid' hp' where
    run: "run cs grid hp = Inr (grid', hp')" and ok': "life_ok grid' hp'"
    and d': "Life.width grid' = wd" "Life.h grid' = ht"
    and p': "{a grid', b grid'} = {a grid, b grid}"
    unfolding d by blast
  have fld: "p < length hp' \<and> Field.width (hp' ! p) = wd \<and> Field.h (hp' ! p) = ht
        \<and> length (s (hp' ! p)) = nat ht
        \<and> (\<forall>row \<in> set (s (hp' ! p)). length row = nat wd)
        \<and> (\<forall>x y. 0 \<le> x \<and> x < wd \<and> 0 \<le> y \<and> y < ht \<longrightarrow>
              Alive (hp' ! p) x y = Inr (cell (hp' ! p) x y))"
    if "p \<in> {a grid', b grid'}" for p
  proof -
    from that obtain cur where p: "p = field_of grid' cur"
      by (auto simp: field_of_def intro: that)
    note f = life_ok_field [OF ok', of cur, folded p, unfolded d']
    have "Alive (hp' ! p) x y = Inr (cell (hp' ! p) x y)"
      if "0 \<le> x \<and> x < wd \<and> 0 \<le> y \<and> y < ht" for x y
      using f that by (intro Alive_in) simp_all
    moreover from f(2) have "length (s (hp' ! p)) = nat ht"
      and "\<forall>row \<in> set (s (hp' ! p)). length row = nat wd"
      by (simp_all add: field_ok_def list_all_iff f)
    ultimately show ?thesis using f by blast
  qed
  from ok' have "a grid' \<noteq> b grid'" by (simp add: life_ok_def)
  with run d' p' fld show ?thesis by blast
qed


lemma NewLife_small:
  "NewLife 2 2 [] counting =
     Inr (\<lparr>a = 0, b = 1, width = 2, h = 2\<rparr>,
          [\<lparr>s = [[False, False], [True, False]], width = 2, h = 2\<rparr>,
           \<lparr>s = [[False, False], [False, False]], width = 2, h = 2\<rparr>],
          \<lambda>k. counting (Suc (Suc k)))"
proof -
  have two: "replicate 2 v = [v, v]" for v :: 'a
    by (simp add: numeral_2_eq_2)
  have nf: "NewField 2 2 hp =
      Inr (length hp, hp @ [\<lparr>s = [[False, False], [False, False]], width = 2, h = 2\<rparr>])" for hp
    by (simp add: NewField_result two)
  have n: "mul64 2 2 sdiv 4 = 1"
    by (simp add: mul64_def wrap64_def signed_divide_int_def)
  have 1: "NewLife_loop 2 2 0 1 hp r = Inr (hp, r)" for hp r
    by (subst NewLife_loop.simps) (simp add: n)
  have 0: "NewLife_loop 2 2 0 0
      [\<lparr>s = [[False, False], [False, False]], width = 2, h = 2\<rparr>] counting =
      Inr ([\<lparr>s = [[False, False], [True, False]], width = 2, h = 2\<rparr>],
           \<lambda>k. counting (Suc (Suc k)))"
    by (subst NewLife_loop.simps)
      (simp add: n 1 Intn_def counting_def deref_def Set_def index_def)
  show ?thesis
    by (simp add: NewLife_def nf 0)
qed

text \<open>
  A game of two by two cells seeded from the source \<open>0, 1, 2, ...\<close>, then a write to the
  scratch field, two generations, a rendering and two reads.
\<close>

theorem Life_dimensions_invariant_witness:
  "list_all (op_in_range 2 2)
     [DoSet False 1 1 True, DoStep, DoString, DoAlive True 1 0, DoNext False 0 1, DoStep]
   \<and> (\<exists>grid' hp'.
        run [DoSet False 1 1 True, DoStep, DoString, DoAlive True 1 0, DoNext False 0 1, DoStep]
          \<lparr>a = 0, b = 1, width = 2, h = 2\<rparr>
          [\<lparr>s = [[False, False], [True, False]], width = 2, h = 2\<rparr>,
           \<lparr>s = [[False, False], [False, False]], width = 2, h = 2\<rparr>] = Inr (grid', hp')
      \<and> Life.width grid' = 2 \<and> Life.h grid' = 2 \<and> {a grid', b grid'} = {0, 1}
      \<and> (\<forall>p \<in> {a grid', b grid'}.
            Field.width (hp' ! p) = 2 \<and> Field.h (hp' ! p) = 2 \<and> length (s (hp' ! p)) = 2))"
proof -
  let ?cs = "[DoSet False 1 1 True, DoStep, DoString, DoAlive True 1 0, DoNext False 0 1, DoStep]"
  have m: "(0::int) < 2" "2 * (2::int) \<le> max_int" "(2::int) * 2 \<le> max_int"
    by (simp_all add: max_int_def)
  have r: "list_all (op_in_range 2 2) ?cs" by simp
  from Life_dimensions_invariant [OF m(1) m(1) m(2) m(2) m(3) NewLife_small r]
  show ?thesis using r by auto
qed

end
